theory Spec2Isabelle
  imports Main "HOL-Library.Sublist"
begin

section \<open>JavaScript strings\<close>

text \<open>
  A JavaScript string is a sequence of UTF-16 code units. A code unit is modelled by its
  number, a string by the list of its code units. The ASCII literals of the source are
  written as HOL string literals and mapped with \<open>js\<close>.
\<close>

type_synonym jsstring = "nat list"

definition cu :: "char \<Rightarrow> nat" where
  "cu c = of_char c"

definition js :: "string \<Rightarrow> jsstring" where
  "js s = map cu s"

text \<open>\<^verbatim>\<open>s[i]\<close>: the code unit at index \<open>i\<close>, \<^verbatim>\<open>undefined\<close> (here \<open>None\<close>)
  outside the string.\<close>

definition char_at :: "jsstring \<Rightarrow> int \<Rightarrow> nat option" where
  "char_at s i = (if 0 \<le> i \<and> i < int (length s) then Some (s ! nat i) else None)"

text \<open>\<^verbatim>\<open>s.slice(a, b)\<close>: a negative index counts from the end, both indices are
  clamped to the string, and an empty string results when the start is not before the end.\<close>

definition rel_index :: "jsstring \<Rightarrow> int \<Rightarrow> nat" where
  "rel_index s i =
     (if i < 0 then nat (max (int (length s) + i) 0) else nat (min i (int (length s))))"

definition slice :: "jsstring \<Rightarrow> int \<Rightarrow> int \<Rightarrow> jsstring" where
  "slice s a b = (let f = rel_index s a; t = rel_index s b in take (t - f) (drop f s))"

text \<open>\<^verbatim>\<open>s.slice(a)\<close> with one argument runs to the end of the string.\<close>

definition slice_from :: "jsstring \<Rightarrow> int \<Rightarrow> jsstring" where
  "slice_from s a = drop (rel_index s a) s"

definition endsWith :: "jsstring \<Rightarrow> jsstring \<Rightarrow> bool" where
  "endsWith s t = (length t \<le> length s \<and> drop (length s - length t) s = t)"

text \<open>\<^verbatim>\<open>s.split('\n')\<close>: the pieces between line feeds; never the empty array.
  \<open>join_lines\<close> puts the line feeds back.\<close>

fun split_lines :: "jsstring \<Rightarrow> jsstring list" where
  "split_lines [] = [[]]"
| "split_lines (x # xs) =
     (if x = 10 then [] # split_lines xs
      else (case split_lines xs of l # ls \<Rightarrow> (x # l) # ls | [] \<Rightarrow> [[x]]))"

fun join_lines :: "jsstring list \<Rightarrow> jsstring" where
  "join_lines [] = []"
| "join_lines [l] = l"
| "join_lines (l # ls) = l @ 10 # join_lines ls"

section \<open>Regular expressions\<close>

text \<open>
  The fragment of ECMAScript patterns that the source uses, without the \<^verbatim>\<open>u\<close> and
  \<^verbatim>\<open>s\<close> flags: a pattern works on code units, \<^verbatim>\<open>\s\<close> is the class of white space
  and line terminators, and \<^verbatim>\<open>.\<close> is every code unit but a line terminator.
\<close>

definition lineTerminator :: "nat \<Rightarrow> bool" where
  "lineTerminator c = (c = 10 \<or> c = 13 \<or> c = 8232 \<or> c = 8233)"

definition whiteSpace :: "nat \<Rightarrow> bool" where
  "whiteSpace c =
     (c = 9 \<or> c = 10 \<or> c = 11 \<or> c = 12 \<or> c = 13 \<or> c = 32 \<or> c = 160 \<or> c = 5760
      \<or> (8192 \<le> c \<and> c \<le> 8202) \<or> c = 8232 \<or> c = 8233 \<or> c = 8239 \<or> c = 8287
      \<or> c = 12288 \<or> c = 65279)"

datatype cclass = Lit nat | WhiteSpace | AnyChar | OneOf cclass cclass

fun cmem :: "cclass \<Rightarrow> nat \<Rightarrow> bool" where
  "cmem (Lit c) x = (x = c)"
| "cmem WhiteSpace x = whiteSpace x"
| "cmem AnyChar x = (\<not> lineTerminator x)"
| "cmem (OneOf a b) x = (cmem a x \<or> cmem b x)"

text \<open>
  \<open>Star\<close> is the greedy \<^verbatim>\<open>*\<close> over a class of code units (the source has no other),
  \<open>Opt\<close> the greedy \<^verbatim>\<open>?\<close> and \<^verbatim>\<open>{0,1}\<close>, \<open>Alt\<close> the ordered choice \<^verbatim>\<open>|\<close>.
\<close>

datatype re = Eps | Atom cclass | Seq re re | Alt re re | Opt re | Star cclass

text \<open>
  A backtracking matcher tries the alternatives of a pattern in a fixed order and takes
  the first that lets the rest of the pattern match. \<open>ends r s\<close> lists, in that order, what
  is left of \<open>s\<close> after each way of matching \<open>r\<close> at the start of \<open>s\<close>: the head of the list
  is the match that \<^verbatim>\<open>exec\<close> reports.
\<close>

fun star_ends :: "cclass \<Rightarrow> jsstring \<Rightarrow> jsstring list" where
  "star_ends c [] = [[]]"
| "star_ends c (x # xs) = (if cmem c x then star_ends c xs @ [x # xs] else [x # xs])"

fun ends :: "re \<Rightarrow> jsstring \<Rightarrow> jsstring list" where
  "ends Eps s = [s]"
| "ends (Atom c) [] = []"
| "ends (Atom c) (x # xs) = (if cmem c x then [xs] else [])"
| "ends (Seq a b) s = concat (map (ends b) (ends a s))"
| "ends (Alt a b) s = ends a s @ ends b s"
| "ends (Opt a) s = ends a s @ [s]"
| "ends (Star c) s = star_ends c s"

text \<open>The match at the start of \<open>s\<close>, if any: the matched text and what follows it.\<close>

definition match_at :: "re \<Rightarrow> jsstring \<Rightarrow> (jsstring \<times> jsstring) option" where
  "match_at r s =
     (case ends r s of [] \<Rightarrow> None | e # _ \<Rightarrow> Some (take (length s - length e) s, e))"

text \<open>
  \<^verbatim>\<open>exec\<close>, \<^verbatim>\<open>match\<close>, \<^verbatim>\<open>search\<close> and \<^verbatim>\<open>replace\<close> look for the leftmost start
  index with a match: \<open>search r s\<close> is that index, the matched text and the text after it.
\<close>

fun search :: "re \<Rightarrow> jsstring \<Rightarrow> (nat \<times> jsstring \<times> jsstring) option" where
  "search r [] = (case match_at r [] of None \<Rightarrow> None | Some (m, e) \<Rightarrow> Some (0, m, e))"
| "search r (x # xs) =
     (case match_at r (x # xs) of
        Some (m, e) \<Rightarrow> Some (0, m, e)
      | None \<Rightarrow> (case search r xs of None \<Rightarrow> None | Some (i, m, e) \<Rightarrow> Some (Suc i, m, e)))"

text \<open>
  A pattern \<^verbatim>\<open>/^r/m\<close>: with the \<^verbatim>\<open>m\<close> flag \<^verbatim>\<open>^\<close> holds at index 0 and after every
  line terminator. \<open>test_bol r b s\<close> says whether \<open>r\<close> matches at such an index of \<open>s\<close>,
  where \<open>b\<close> says whether the start of \<open>s\<close> is one.
\<close>

fun test_bol :: "re \<Rightarrow> bool \<Rightarrow> jsstring \<Rightarrow> bool" where
  "test_bol r b [] = (b \<and> ends r [] \<noteq> [])"
| "test_bol r b (x # xs) = ((b \<and> ends r (x # xs) \<noteq> []) \<or> test_bol r (lineTerminator x) xs)"

fun seqs :: "re list \<Rightarrow> re" where
  "seqs [] = Eps"
| "seqs (r # rs) = Seq r (seqs rs)"

definition chr :: "char \<Rightarrow> re" where
  "chr c = Atom (Lit (cu c))"

definition lits :: "jsstring \<Rightarrow> re" where
  "lits s = seqs (map (\<lambda>c. Atom (Lit c)) s)"

text \<open>
  \<^verbatim>\<open>s.replace(r, t)\<close> for a pattern \<open>r\<close> without the \<^verbatim>\<open>g\<close> flag replaces the leftmost
  match. A dollar sign in \<open>t\<close> starts a replacement pattern (\<^verbatim>\<open>$&\<close>, \<^verbatim>\<open>$1\<close>, ...);
  these are not modelled, and there is no result for such a text.
\<close>

definition replaceFirst :: "re \<Rightarrow> jsstring \<Rightarrow> jsstring \<Rightarrow> jsstring option" where
  "replaceFirst r t s =
     (if cu CHR ''$'' \<in> set t then None
      else Some (case search r s of None \<Rightarrow> s | Some (i, m, e) \<Rightarrow> take i s @ t @ e))"

text \<open>
  \<^verbatim>\<open>new RegExp(src)\<close> for a text \<open>src\<close> put into a pattern. A code unit that is not a
  syntax character of patterns stands for itself, and a full stop for every code unit but
  a line terminator. The other syntax characters are not modelled: there is no result
  for a text with one of them (where the source may also raise a SyntaxError).
\<close>

text \<open>The syntax characters: the backslash (code unit 92) and
  \<^verbatim>\<open>^ $ . * + ? ( ) [ ] { } |\<close>.\<close>

definition syntaxCharacter :: "nat \<Rightarrow> bool" where
  "syntaxCharacter c = (c = 92 \<or> c \<in> set (js ''^$.*+?()[]{}|''))"

definition RegExp :: "jsstring \<Rightarrow> re option" where
  "RegExp src =
     (if list_all (\<lambda>c. c = cu CHR ''.'' \<or> \<not> syntaxCharacter c) src
      then Some (seqs (map (\<lambda>c. Atom (if c = cu CHR ''.'' then AnyChar else Lit c)) src))
      else None)"

subsection \<open>The matcher and the language of a pattern\<close>

fun lang :: "re \<Rightarrow> jsstring set" where
  "lang Eps = {[]}"
| "lang (Atom c) = {[x] |x. cmem c x}"
| "lang (Seq a b) = {u @ v |u v. u \<in> lang a \<and> v \<in> lang b}"
| "lang (Alt a b) = lang a \<union> lang b"
| "lang (Opt a) = insert [] (lang a)"
| "lang (Star c) = {w. list_all (cmem c) w}"

lemma star_ends_iff: "e \<in> set (star_ends c s) \<longleftrightarrow> (\<exists>w. s = w @ e \<and> list_all (cmem c) w)"
proof (induction s)
  case Nil
  show ?case by auto
next
  case (Cons x xs)
  show ?case
  proof (cases "cmem c x")
    case True
    have "(\<exists>w. x # xs = w @ e \<and> list_all (cmem c) w)
            \<longleftrightarrow> e = x # xs \<or> (\<exists>w. xs = w @ e \<and> list_all (cmem c) w)"
      using True by (auto simp: Cons_eq_append_conv)
    with Cons True show ?thesis by auto
  next
    case False
    have "(\<exists>w. x # xs = w @ e \<and> list_all (cmem c) w) \<longleftrightarrow> e = x # xs"
      using False by (auto simp: Cons_eq_append_conv)
    with False show ?thesis by simp
  qed
qed

lemma ends_iff: "e \<in> set (ends r s) \<longleftrightarrow> (\<exists>w\<in>lang r. s = w @ e)"
proof (induction r arbitrary: s e)
  case Eps
  show ?case by auto
next
  case (Atom c)
  show ?case by (cases s) auto
next
  case (Seq a b)
  show ?case
  proof
    assume "e \<in> set (ends (Seq a b) s)"
    then obtain m where m: "m \<in> set (ends a s)" "e \<in> set (ends b m)" by auto
    from m(1) obtain u where u: "u \<in> lang a" "s = u @ m" using Seq.IH(1) by blast
    from m(2) obtain v where v: "v \<in> lang b" "m = v @ e" using Seq.IH(2) by blast
    have "u @ v \<in> lang (Seq a b)" using u v by auto
    moreover have "s = (u @ v) @ e" using u v by simp
    ultimately show "\<exists>w\<in>lang (Seq a b). s = w @ e" by blast
  next
    assume "\<exists>w\<in>lang (Seq a b). s = w @ e"
    then obtain u v where uv: "u \<in> lang a" "v \<in> lang b" "s = (u @ v) @ e" by auto
    have "v @ e \<in> set (ends a s)" using uv Seq.IH(1) by auto
    moreover have "e \<in> set (ends b (v @ e))" using uv Seq.IH(2) by auto
    ultimately show "e \<in> set (ends (Seq a b) s)" by auto
  qed
next
  case (Alt a b)
  show ?case by (auto simp: Alt)
next
  case (Opt a)
  show ?case by (auto simp: Opt)
next
  case (Star c)
  show ?case by (auto simp: star_ends_iff)
qed

lemma ends_nonempty_iff: "ends r s \<noteq> [] \<longleftrightarrow> (\<exists>w e. w \<in> lang r \<and> s = w @ e)"
proof -
  have "ends r s \<noteq> [] \<longleftrightarrow> (\<exists>e. e \<in> set (ends r s))" by (cases "ends r s") auto
  then show ?thesis using ends_iff by blast
qed

lemma lang_SeqI: "u \<in> lang a \<Longrightarrow> v \<in> lang b \<Longrightarrow> u @ v \<in> lang (Seq a b)"
  by auto

lemma lang_SeqE:
  assumes "w \<in> lang (Seq a b)"
  obtains u v where "w = u @ v" "u \<in> lang a" "v \<in> lang b"
  using assms by auto

lemma lang_lits: "lang (lits t) = {t}"
  unfolding lits_def by (induction t) auto

lemma match_at_None_iff: "match_at r s = None \<longleftrightarrow> ends r s = []"
  by (simp add: match_at_def split: list.splits)

lemma match_at_SomeD:
  assumes "match_at r s = Some (m, e)"
  shows "s = m @ e" and "m \<in> lang r"
proof -
  from assms obtain es where es: "ends r s = e # es" and m: "m = take (length s - length e) s"
    by (auto simp: match_at_def split: list.splits)
  then have "e \<in> set (ends r s)" by simp
  then obtain w where w: "w \<in> lang r" "s = w @ e" using ends_iff by blast
  with m have "m = w" by simp
  with w show "s = m @ e" and "m \<in> lang r" by simp_all
qed

lemma match_at_lang: "w \<in> lang r \<Longrightarrow> match_at r (w @ e) \<noteq> None"
  unfolding match_at_None_iff ends_nonempty_iff by blast

text \<open>What \<open>search\<close> finds: a match at index \<open>i\<close>, and no match at a smaller index.\<close>

lemma search_SomeD:
  assumes "search r s = Some (i, m, e)"
  shows "\<exists>p. s = p @ m @ e \<and> length p = i \<and> match_at r (m @ e) = Some (m, e)
           \<and> (\<forall>p1 p2. p = p1 @ p2 \<and> p2 \<noteq> [] \<longrightarrow> match_at r (p2 @ m @ e) = None)"
  using assms
proof (induction s arbitrary: i)
  case Nil
  then have "match_at r [] = Some (m, e)" and "i = 0"
    by (auto split: option.splits)
  moreover from this have "[] = m @ e" using match_at_SomeD(1) by blast
  ultimately show ?case by simp
next
  case (Cons x xs)
  show ?case
  proof (cases "match_at r (x # xs)")
    case (Some me)
    with Cons.prems have me: "match_at r (x # xs) = Some (m, e)" and i: "i = 0"
      by (auto split: prod.splits)
    then have "x # xs = m @ e" using match_at_SomeD(1) by blast
    with me i show ?thesis by simp
  next
    case None
    with Cons.prems obtain j where j: "search r xs = Some (j, m, e)" and i: "i = Suc j"
      by (auto split: option.splits)
    from Cons.IH[OF j] obtain p where p: "xs = p @ m @ e" "length p = j"
        "match_at r (m @ e) = Some (m, e)"
        "\<forall>p1 p2. p = p1 @ p2 \<and> p2 \<noteq> [] \<longrightarrow> match_at r (p2 @ m @ e) = None"
      by blast
    have "\<forall>p1 p2. x # p = p1 @ p2 \<and> p2 \<noteq> [] \<longrightarrow> match_at r (p2 @ m @ e) = None"
    proof (intro allI impI)
      fix p1 p2
      assume h: "x # p = p1 @ p2 \<and> p2 \<noteq> []"
      show "match_at r (p2 @ m @ e) = None"
      proof (cases p1)
        case Nil
        with h have "p2 = x # p" by simp
        with None p(1) show ?thesis by simp
      next
        case (Cons y ys)
        with h have "p = ys @ p2" by simp
        with h p(4) show ?thesis by blast
      qed
    qed
    with p i show ?thesis by (intro exI[of _ "x # p"]) simp
  qed
qed

lemma search_None_iff: "search r s = None \<longleftrightarrow> (\<forall>u v. s = u @ v \<longrightarrow> match_at r v = None)"
proof (induction s)
  case Nil
  show ?case by (auto split: option.splits)
next
  case (Cons x xs)
  have "(\<forall>u v. x # xs = u @ v \<longrightarrow> match_at r v = None)
          \<longleftrightarrow> match_at r (x # xs) = None \<and> (\<forall>u v. xs = u @ v \<longrightarrow> match_at r v = None)"
    by (auto simp: Cons_eq_append_conv)
  with Cons show ?case by (auto split: option.splits)
qed

lemma search_first:
  assumes "match_at r v = Some (m, e)" and "\<forall>p1 p2. u = p1 @ p2 \<and> p2 \<noteq> [] \<longrightarrow> match_at r (p2 @ v) = None"
  shows "search r (u @ v) = Some (length u, m, e)"
  using assms
proof (induction u)
  case Nil
  then show ?case by (cases v) auto
next
  case (Cons x u)
  have "match_at r (x # u @ v) = None" using Cons.prems(2) by (metis append_Cons append_Nil list.distinct(1))
  moreover have "search r (u @ v) = Some (length u, m, e)"
  proof (rule Cons.IH[OF Cons.prems(1)], intro allI impI)
    fix p1 p2
    assume "u = p1 @ p2 \<and> p2 \<noteq> []"
    then have "x # u = (x # p1) @ p2 \<and> p2 \<noteq> []" by simp
    then show "match_at r (p2 @ v) = None" using Cons.prems(2) by blast
  qed
  ultimately show ?case by simp
qed

text \<open>A pattern of literal code units is found where the text occurs.\<close>

lemma match_at_lits: "match_at (lits t) s = (if prefix t s then Some (t, drop (length t) s) else None)"
proof (cases "match_at (lits t) s")
  case None
  have "\<not> prefix t s"
  proof
    assume "prefix t s"
    then obtain z where "s = t @ z" by (auto simp: prefix_def)
    moreover have "t \<in> lang (lits t)" by (simp add: lang_lits)
    ultimately have "match_at (lits t) s \<noteq> None" using match_at_lang by blast
    with None show False by simp
  qed
  with None show ?thesis by simp
next
  case (Some me)
  obtain m e where "me = (m, e)" by (cases me)
  with Some match_at_SomeD[of "lits t" s m e] have "s = t @ e" "m = t"
    by (auto simp: lang_lits)
  with Some \<open>me = (m, e)\<close> show ?thesis by simp
qed

lemma search_lits_None_iff: "search (lits t) s = None \<longleftrightarrow> \<not> sublist t s"
  unfolding search_None_iff match_at_lits
  by (auto simp: sublist_def prefix_def)

section \<open>Token matcher\<close>

text \<open>\<^verbatim>\<open>/^(\s|>)*\|.*-\s?(?:\[\s?\]|\[).*/m\<close> without its \<^verbatim>\<open>^\<close>; \<open>bracketsRegex\<close> is the
  group \<^verbatim>\<open>(?:\[\s?\]|\[)\<close>.\<close>

definition bracketsRegex :: re where
  "bracketsRegex = Alt (seqs [chr CHR ''['', Opt (Atom WhiteSpace), chr CHR '']'']) (chr CHR ''['')"

definition tableRegex :: re where
  "tableRegex =
     seqs [Star (OneOf WhiteSpace (Lit (cu CHR ''>''))), chr CHR ''|'', Star AnyChar,
           chr CHR ''-'', Opt (Atom WhiteSpace), bracketsRegex, Star AnyChar]"

definition isMDCheckboxInTable :: "jsstring \<Rightarrow> bool" where
  "isMDCheckboxInTable rowValue = test_bol tableRegex True rowValue"

definition closingBracketIsTooFar :: "jsstring \<Rightarrow> int \<Rightarrow> bool" where
  "closingBracketIsTooFar rowValue ch =
     (if char_at rowValue (ch - 1) = Some (cu CHR ''['')
         \<or> char_at rowValue (ch - 2) = Some (cu CHR ''['')
      then False else True)"

text \<open>\<^verbatim>\<open>/-\s{0,1}\[\s{0,1}\]?/\<close>\<close>

definition checkboxRegex :: re where
  "checkboxRegex =
     seqs [chr CHR ''-'', Opt (Atom WhiteSpace), chr CHR ''['', Opt (Atom WhiteSpace),
           Opt (chr CHR '']'')]"

definition getCheckboxLength :: "jsstring \<Rightarrow> int \<Rightarrow> jsstring option" where
  "getCheckboxLength viewData ch =
     (let completeCheckbox = (char_at viewData ch = Some (cu CHR '']''));
          areaToCheck = slice viewData (ch - 4) (if completeCheckbox then ch + 1 else ch)
      in case search checkboxRegex areaToCheck of
           None \<Rightarrow> None
         | Some (i, m, e) \<Rightarrow> Some m)"

text \<open>\<^verbatim>\<open>/-\s{0,1}\[\s{0,1}\]/g\<close>, the pattern of the bulk conversion.\<close>

definition checkboxRegexG :: re where
  "checkboxRegexG =
     seqs [chr CHR ''-'', Opt (Atom WhiteSpace), chr CHR ''['', Opt (Atom WhiteSpace),
           chr CHR '']'']"

lemma search_checkboxRegexG_shorter:
  assumes "search checkboxRegexG s = Some (i, m, e)"
  shows "length e < length s"
proof -
  from search_SomeD[OF assms] obtain p where p: "s = p @ m @ e"
    and m: "match_at checkboxRegexG (m @ e) = Some (m, e)" by blast
  from match_at_SomeD(2)[OF m] have "m \<noteq> []"
    by (auto simp: checkboxRegexG_def chr_def)
  with p show ?thesis by simp
qed

text \<open>
  The loop \<^verbatim>\<open>while ((match = checkboxRegex.exec(line)) !== null)\<close>: \<open>execAll lastIndex s\<close>,
  where \<open>s\<close> is the line from \<open>lastIndex\<close> on, lists \<^verbatim>\<open>match.index\<close> and
  \<^verbatim>\<open>match.index + match[0].length\<close> of the matches from there on. A match of this
  pattern is never empty, so that \<open>lastIndex\<close> grows and the loop ends.
\<close>

function execAll :: "nat \<Rightarrow> jsstring \<Rightarrow> (nat \<times> nat) list" where
  "execAll lastIndex s =
     (case search checkboxRegexG s of
        None \<Rightarrow> []
      | Some (i, m, e) \<Rightarrow>
          (lastIndex + i, lastIndex + i + length m) # execAll (lastIndex + i + length m) e)"
  by pat_completeness auto
termination
  by (relation "measure (\<lambda>(lastIndex, s). length s)")
     (auto simp: search_checkboxRegexG_shorter)

declare execAll.simps [simp del]

text \<open>A recorded checkbox: the line and the columns \<^verbatim>\<open>from.ch\<close> and \<^verbatim>\<open>to.ch\<close>; both
  ends are on the same line.\<close>

type_synonym span = "nat \<times> nat \<times> nat"

fun scanLines :: "bool \<Rightarrow> nat \<Rightarrow> jsstring list \<Rightarrow> span list" where
  "scanLines convertOutsideTables lineCount [] = []"
| "scanLines convertOutsideTables lineCount (line # rest) =
     (if \<not> convertOutsideTables \<and> \<not> isMDCheckboxInTable line
      then scanLines convertOutsideTables (Suc lineCount) rest
      else map (\<lambda>(f, t). (lineCount, f, t)) (execAll 0 line)
             @ scanLines convertOutsideTables (Suc lineCount) rest)"

definition getCheckboxesToConvert :: "jsstring \<Rightarrow> bool \<Rightarrow> span list" where
  "getCheckboxesToConvert page convertOutsideTables =
     scanLines convertOutsideTables 0 (split_lines page)"

section \<open>Identifier generator\<close>

text \<open>
  The random source: \<open>rnd k\<close> is the result of the \<open>k\<close>-th call of
  \<^verbatim>\<open>crypto.randomUUID()\<close>. A function that draws from it takes the number of calls made
  so far and returns the new number with its result.
\<close>

type_synonym random = "nat \<Rightarrow> jsstring"

text \<open>\<^verbatim>\<open>page.search(id) !== -1\<close>: \<^verbatim>\<open>search\<close> makes a pattern of a string argument.\<close>

definition idExistsInFile :: "jsstring \<Rightarrow> jsstring \<Rightarrow> bool option" where
  "idExistsInFile ident page =
     (case RegExp ident of None \<Rightarrow> None | Some r \<Rightarrow> Some (search r page \<noteq> None))"

text \<open>
  The loop of \<^verbatim>\<open>generateUniqueCheckboxId\<close>. It has no result when it runs forever (and
  when an identifier is outside the modelled patterns).
\<close>

partial_function (option) regenerate ::
  "random \<Rightarrow> jsstring \<Rightarrow> jsstring \<Rightarrow> nat \<Rightarrow> (jsstring \<times> nat) option" where
  "regenerate rnd page ident n =
     (case idExistsInFile ident page of
        None \<Rightarrow> None
      | Some b \<Rightarrow> if b then regenerate rnd page (rnd n) (Suc n) else Some (ident, n))"

declare regenerate.simps [code]

definition generateUniqueCheckboxId :: "random \<Rightarrow> jsstring \<Rightarrow> nat \<Rightarrow> (jsstring \<times> nat) option" where
  "generateUniqueCheckboxId rnd page n = regenerate rnd page (slice_from (rnd n) (- 6)) (Suc n)"

section \<open>Single-checkbox converter\<close>

text \<open>The rendered control: \<^verbatim>\<open><input type="checkbox" unchecked id="ID">\<close> or its
  \<^verbatim>\<open>checked\<close> form.\<close>

definition control :: "bool \<Rightarrow> jsstring \<Rightarrow> jsstring" where
  "control isChecked checkboxId =
     js ''<input type=\"checkbox\" '' @ (if isChecked then [] else js ''un'')
       @ js ''checked id=\"'' @ checkboxId @ js ''\">''"

text \<open>
  \<^verbatim>\<open>handleCheckboxReplacement\<close> moves the end of the selection one place to the right
  when the matched text ends with a closing bracket and puts its start as many places
  before the end as the matched text is long. \<open>checkboxSelection ch checkbox\<close> is the
  pair \<^verbatim>\<open>(start.ch, location.ch)\<close> that it passes to \<^verbatim>\<open>editor.setSelection\<close>.
\<close>

definition checkboxSelection :: "int \<Rightarrow> jsstring \<Rightarrow> int \<times> int" where
  "checkboxSelection ch checkbox =
     (let completeCheckbox = endsWith checkbox (js '']'');
          ch' = (if completeCheckbox then ch + 1 else ch)
      in (ch' - int (length checkbox), ch'))"

text \<open>
  The host editor clips a column to the line. \<open>selectedText\<close> is the text of a line
  between two columns, which \<^verbatim>\<open>replaceSelection\<close> removes, and \<open>replaceInLine\<close> the
  line after the replacement.
\<close>

definition clip :: "jsstring \<Rightarrow> int \<Rightarrow> nat" where
  "clip row c = nat (max 0 (min c (int (length row))))"

definition selectedText :: "jsstring \<Rightarrow> int \<times> int \<Rightarrow> jsstring" where
  "selectedText row sel =
     (case sel of (a, b) \<Rightarrow> take (clip row b - clip row a) (drop (clip row a) row))"

definition replaceInLine :: "jsstring \<Rightarrow> int \<times> int \<Rightarrow> jsstring \<Rightarrow> jsstring" where
  "replaceInLine row sel t =
     (case sel of (a, b) \<Rightarrow> take (clip row a) row @ t @ drop (clip row b) row)"

text \<open>
  The \<^verbatim>\<open>input\<close> listener for a typed closing bracket, on the line \<open>rowValue\<close> of the cursor
  and its column \<open>ch\<close>: \<open>None\<close> when it returns early, else the matched text and the
  selection that \<^verbatim>\<open>handleCheckboxReplacement\<close> replaces with the control.
\<close>

definition onInput :: "jsstring \<Rightarrow> int \<Rightarrow> (jsstring \<times> int \<times> int) option" where
  "onInput rowValue ch =
     (if \<not> isMDCheckboxInTable rowValue then None
      else if closingBracketIsTooFar rowValue ch then None
      else case getCheckboxLength rowValue ch of
             None \<Rightarrow> None
           | Some checkbox \<Rightarrow>
               if checkbox = [] then None else Some (checkbox, checkboxSelection ch checkbox))"

text \<open>
  \<^verbatim>\<open>handleCheckboxReplacement\<close> on the line \<open>row\<close> of the cursor in the document \<open>page\<close>:
  the line with the control of a new identifier in the place of the selection.
\<close>

definition handleCheckboxReplacement ::
  "random \<Rightarrow> nat \<Rightarrow> jsstring \<Rightarrow> jsstring \<Rightarrow> int \<Rightarrow> jsstring \<Rightarrow> (jsstring \<times> nat) option" where
  "handleCheckboxReplacement rnd n page row ch checkbox =
     (case generateUniqueCheckboxId rnd page n of
        None \<Rightarrow> None
      | Some (checkboxId, n') \<Rightarrow>
          Some (replaceInLine row (checkboxSelection ch checkbox) (control False checkboxId), n'))"

section \<open>Host editor\<close>

text \<open>
  The editor of the host is not part of the repository. Its state is the text of the
  document and the selected ranges. A position is a line and a column; the editor turns
  it into an offset into the text, clipped to the line and to the document.
\<close>

datatype hostError = RangeError

record editor =
  content :: jsstring
  selections :: "span list"
  rejectsEmptySelection :: bool

fun offsetIn :: "jsstring list \<Rightarrow> nat \<Rightarrow> nat \<Rightarrow> nat" where
  "offsetIn [] l ch = 0"
| "offsetIn (row # rows) 0 ch = min ch (length row)"
| "offsetIn (row # rows) (Suc l) ch =
     (if rows = [] then length row else length row + 1 + offsetIn rows l ch)"

definition spanOffsets :: "jsstring \<Rightarrow> span \<Rightarrow> nat \<times> nat" where
  "spanOffsets page sp =
     (case sp of (l, f, t) \<Rightarrow> (offsetIn (split_lines page) l f, offsetIn (split_lines page) l t))"

text \<open>
  \<^verbatim>\<open>setSelections\<close>. What the host does with an empty list of ranges is a parameter of
  the model: an editor on CodeMirror 6 raises a RangeError (a selection needs at least one
  range), and \<open>rejectsEmptySelection\<close> says so; an editor that accepts the call keeps the
  selection that it has.
\<close>

definition setSelections :: "span list \<Rightarrow> editor \<Rightarrow> hostError + editor" where
  "setSelections ranges ed =
     (if ranges = [] then (if rejectsEmptySelection ed then Inl RangeError else Inr ed)
      else Inr (ed\<lparr>selections := ranges\<rparr>))"

text \<open>
  \<open>replaceRanges pos rs ts s\<close> puts the \<open>k\<close>-th text of \<open>ts\<close> in the place of the \<open>k\<close>-th
  range of \<open>rs\<close>, for ranges in ascending order that do not overlap; \<open>s\<close> is the text from
  offset \<open>pos\<close> on. \<^verbatim>\<open>replaceSelection\<close> puts the same text in the place of every
  selected range.
\<close>

fun replaceRanges :: "nat \<Rightarrow> (nat \<times> nat) list \<Rightarrow> jsstring list \<Rightarrow> jsstring \<Rightarrow> jsstring" where
  "replaceRanges pos ((f, t) # rs) (x # xs) s =
     take (f - pos) s @ x @ replaceRanges t rs xs (drop (t - pos) s)"
| "replaceRanges pos rs xs s = s"

definition replaceSelection :: "jsstring \<Rightarrow> editor \<Rightarrow> editor" where
  "replaceSelection t ed =
     ed\<lparr>content :=
          replaceRanges 0 (map (spanOffsets (content ed)) (selections ed))
            (replicate (length (selections ed)) t) (content ed)\<rparr>"

section \<open>Bulk converter\<close>

definition placeholder :: jsstring where
  "placeholder = js ''!!PLACEHOLDER_TO_BE_REPLACED_WITH_CHECKBOX!!''"

text \<open>\<^verbatim>\<open>Array.from({ length: n }, () => this.generateUniqueCheckboxId(page))\<close>\<close>

fun generateIds :: "random \<Rightarrow> jsstring \<Rightarrow> nat \<Rightarrow> nat \<Rightarrow> (jsstring list \<times> nat) option" where
  "generateIds rnd page 0 n = Some ([], n)"
| "generateIds rnd page (Suc k) n =
     (case generateUniqueCheckboxId rnd page n of
        None \<Rightarrow> None
      | Some (ident, n') \<Rightarrow>
          (case generateIds rnd page k n' of
             None \<Rightarrow> None
           | Some (idents, n'') \<Rightarrow> Some (ident # idents, n'')))"

text \<open>The loop \<^verbatim>\<open>checkboxIds.forEach\<close>: each identifier replaces the first placeholder
  that is left.\<close>

fun substituteIds :: "jsstring \<Rightarrow> jsstring list \<Rightarrow> jsstring option" where
  "substituteIds page [] = Some page"
| "substituteIds page (ident # idents) =
     (case replaceFirst (lits placeholder) (control False ident) page of
        None \<Rightarrow> None
      | Some page' \<Rightarrow> substituteIds page' idents)"

text \<open>
  \<open>convertCheckboxes\<close> has no result when the generation of an identifier has none. Else
  it returns the error that the host raised, if any, and the editor as it is left.
\<close>

definition convertCheckboxes ::
  "random \<Rightarrow> nat \<Rightarrow> editor \<Rightarrow> span list \<Rightarrow> (hostError option \<times> editor) option" where
  "convertCheckboxes rnd n ed checkboxes =
     (case generateIds rnd (content ed) (length checkboxes) n of
        None \<Rightarrow> None
      | Some (checkboxIds, n') \<Rightarrow>
          (case setSelections checkboxes ed of
             Inl err \<Rightarrow> Some (Some err, ed)
           | Inr ed1 \<Rightarrow>
               (let ed2 = replaceSelection placeholder ed1
                in case substituteIds (content ed2) checkboxIds of
                     None \<Rightarrow> None
                   | Some page \<Rightarrow> Some (None, ed2\<lparr>content := page\<rparr>))))"

definition convertAllCheckboxes ::
  "random \<Rightarrow> nat \<Rightarrow> bool \<Rightarrow> editor \<Rightarrow> (hostError option \<times> editor) option" where
  "convertAllCheckboxes rnd n convertOutsideTables ed =
     (let page = content ed;
          checkboxes = getCheckboxesToConvert page convertOutsideTables
      in convertCheckboxes rnd n ed checkboxes)"

section \<open>Toggle synchronizer\<close>

text \<open>The persistent file of the document: its text, and how often \<^verbatim>\<open>vault.modify\<close> has
  written it.\<close>

record vault =
  fileText :: jsstring
  modifyCalls :: nat

text \<open>\<^verbatim>\<open>new RegExp(`<input type="checkbox" (un)?checked id="${checkboxId}">`)\<close>\<close>

definition toggleRegex :: "jsstring \<Rightarrow> re option" where
  "toggleRegex checkboxId =
     (case RegExp checkboxId of
        None \<Rightarrow> None
      | Some r \<Rightarrow>
          Some (seqs [lits (js ''<input type=\"checkbox\" ''), Opt (lits (js ''un'')),
                      lits (js ''checked id=\"''), r, lits (js ''\">'')]))"

definition toggleCheckbox :: "jsstring \<Rightarrow> vault \<Rightarrow> bool \<Rightarrow> jsstring \<Rightarrow> vault option" where
  "toggleCheckbox page file isChecked checkboxId =
     (case toggleRegex checkboxId of
        None \<Rightarrow> None
      | Some r \<Rightarrow>
          (case replaceFirst r (control isChecked checkboxId) page of
             None \<Rightarrow> None
           | Some page' \<Rightarrow>
               Some (file\<lparr>fileText := page', modifyCalls := Suc (modifyCalls file)\<rparr>)))"

text \<open>The \<^verbatim>\<open>change\<close> listener reads the file and passes its text on.\<close>

definition onChange :: "vault \<Rightarrow> bool \<Rightarrow> jsstring \<Rightarrow> vault option" where
  "onChange file isChecked checkboxId = toggleCheckbox (fileText file) file isChecked checkboxId"

section \<open>Notions of the specification\<close>

text \<open>A line has no line terminator. The indentation of a table row is white space and
  blockquote markers.\<close>

definition isLine :: "jsstring \<Rightarrow> bool" where
  "isLine s = list_all (\<lambda>c. \<not> lineTerminator c) s"

definition isIndent :: "jsstring \<Rightarrow> bool" where
  "isIndent s = list_all (\<lambda>c. whiteSpace c \<or> c = cu CHR ''>'') s"

text \<open>
  The checkbox marker of the table context: a dash, at most one white space, and the
  brackets \<^verbatim>\<open>[ ]\<close>, \<^verbatim>\<open>[]\<close> or the opening bracket alone.
\<close>

fun isBrackets :: "jsstring \<Rightarrow> bool" where
  "isBrackets [a] = (a = cu CHR ''['')"
| "isBrackets [a, b] = (a = cu CHR ''['' \<and> b = cu CHR '']'')"
| "isBrackets [a, w, b] = (a = cu CHR ''['' \<and> whiteSpace w \<and> b = cu CHR '']'')"
| "isBrackets _ = False"

fun isMarker :: "jsstring \<Rightarrow> bool" where
  "isMarker (d # x # rest) =
     (d = cu CHR ''-'' \<and> (isBrackets (x # rest) \<or> (whiteSpace x \<and> isBrackets rest)))"
| "isMarker _ = False"

text \<open>
  The complete checkbox token: a dash, at most one white space, an opening bracket, at
  most one white space, a closing bracket.
\<close>

fun isToken :: "jsstring \<Rightarrow> bool" where
  "isToken [d, a, b] = (d = cu CHR ''-'' \<and> a = cu CHR ''['' \<and> b = cu CHR '']'')"
| "isToken [d, a, b, c] =
     (d = cu CHR ''-'' \<and> c = cu CHR '']''
      \<and> ((whiteSpace a \<and> b = cu CHR ''['') \<or> (a = cu CHR ''['' \<and> whiteSpace b)))"
| "isToken [d, w, a, v, b] =
     (d = cu CHR ''-'' \<and> whiteSpace w \<and> a = cu CHR ''['' \<and> whiteSpace v \<and> b = cu CHR '']'')"
| "isToken _ = False"

text \<open>
  The result of \<^verbatim>\<open>crypto.randomUUID()\<close>: 36 code units, a hyphen at the indices 8, 13,
  18 and 23 and lower-case hexadecimal digits elsewhere.
\<close>

definition hexDigit :: "nat \<Rightarrow> bool" where
  "hexDigit c = ((48 \<le> c \<and> c \<le> 57) \<or> (97 \<le> c \<and> c \<le> 102))"

fun uuidFrom :: "nat \<Rightarrow> jsstring \<Rightarrow> bool" where
  "uuidFrom i [] = (i = 36)"
| "uuidFrom i (c # cs) =
     ((if i = 8 \<or> i = 13 \<or> i = 18 \<or> i = 23 then c = cu CHR ''-'' else hexDigit c)
      \<and> uuidFrom (Suc i) cs)"

definition isUUID :: "jsstring \<Rightarrow> bool" where
  "isUUID s = uuidFrom 0 s"

text \<open>The candidates that \<^verbatim>\<open>generateUniqueCheckboxId\<close> tries after \<open>n\<close> calls of the
  random source: the last six code units of the next result, then the results after it.\<close>

fun candidate :: "random \<Rightarrow> nat \<Rightarrow> nat \<Rightarrow> jsstring" where
  "candidate rnd n 0 = slice_from (rnd n) (- 6)"
| "candidate rnd n (Suc k) = rnd (n + Suc k)"

text \<open>An identifier without a syntax character of patterns: as a pattern it stands for
  itself.\<close>

definition plainId :: "jsstring \<Rightarrow> bool" where
  "plainId s = list_all (\<lambda>c. \<not> syntaxCharacter c) s"

text \<open>The code units of the identifiers that are generated: hexadecimal digits and
  hyphens.\<close>

definition idChars :: "jsstring \<Rightarrow> bool" where
  "idChars s = list_all (\<lambda>c. hexDigit c \<or> c = cu CHR ''-'') s"

text \<open>The placeholder of the bulk conversion without its last two code units.\<close>

definition placeholderStem :: jsstring where
  "placeholderStem = js ''!!PLACEHOLDER_TO_BE_REPLACED_WITH_CHECKBOX''"

text \<open>
  Ranges in ascending order from an offset on, within a text of a given length. The text
  between the ranges that \<open>replaceRanges\<close> replaces, and the text made of such pieces
  with other texts between them. \<open>okPrefix\<close> holds of a text that has no placeholder stem
  and does not end with a code unit of the stem.
\<close>

fun ascending :: "nat \<Rightarrow> (nat \<times> nat) list \<Rightarrow> nat \<Rightarrow> bool" where
  "ascending pos [] n = (pos \<le> n)"
| "ascending pos ((f, t) # rs) n = (pos \<le> f \<and> f \<le> t \<and> ascending t rs n)"

fun gaps :: "nat \<Rightarrow> (nat \<times> nat) list \<Rightarrow> jsstring \<Rightarrow> jsstring list" where
  "gaps pos [] s = [s]"
| "gaps pos ((f, t) # rs) s = take (f - pos) s # gaps t rs (drop (t - pos) s)"

fun weave :: "jsstring list \<Rightarrow> jsstring list \<Rightarrow> jsstring" where
  "weave [] xs = []"
| "weave (g # gs) [] = g"
| "weave (g # gs) (x # xs) = g @ x @ weave gs xs"

definition okPrefix :: "jsstring \<Rightarrow> bool" where
  "okPrefix d = (\<not> sublist placeholderStem d \<and> (d = [] \<or> last d \<notin> set placeholderStem))"


section \<open>Properties of the token matcher\<close>

lemmas eval_defs =
  js_def cu_def char_at_def slice_def slice_from_def rel_index_def chr_def lits_def match_at_def
  whiteSpace_def lineTerminator_def endsWith_def clip_def control_def syntaxCharacter_def
  RegExp_def replaceFirst_def

lemmas model_defs =
  bracketsRegex_def tableRegex_def isMDCheckboxInTable_def closingBracketIsTooFar_def
  checkboxRegex_def getCheckboxLength_def checkboxRegexG_def execAll.simps
  getCheckboxesToConvert_def idExistsInFile_def regenerate.simps generateUniqueCheckboxId_def
  checkboxSelection_def selectedText_def replaceInLine_def onInput_def spanOffsets_def
  setSelections_def replaceSelection_def placeholder_def convertCheckboxes_def
  convertAllCheckboxes_def toggleRegex_def toggleCheckbox_def onChange_def

subsection \<open>The table context\<close>

lemma lang_brackets: "b \<in> lang bracketsRegex \<longleftrightarrow> isBrackets b"
proof
  assume "b \<in> lang bracketsRegex"
  then show "isBrackets b"
    by (auto simp: bracketsRegex_def chr_def)
next
  assume "isBrackets b"
  then show "b \<in> lang bracketsRegex"
    by (cases b rule: isBrackets.cases) (auto simp: bracketsRegex_def chr_def)
qed

lemma lang_optSpace:
  "sp \<in> lang (Opt (Atom WhiteSpace)) \<longleftrightarrow> sp = [] \<or> (\<exists>c. sp = [c] \<and> whiteSpace c)"
  by auto

lemma isMarker_iff:
  "isMarker m \<longleftrightarrow>
     (\<exists>sp b. m = cu CHR ''-'' # sp @ b \<and> sp \<in> lang (Opt (Atom WhiteSpace)) \<and> isBrackets b)"
proof
  assume "isMarker m"
  then show "\<exists>sp b. m = cu CHR ''-'' # sp @ b \<and> sp \<in> lang (Opt (Atom WhiteSpace)) \<and> isBrackets b"
  proof (cases m rule: isMarker.cases)
    case (1 d x rest)
    with \<open>isMarker m\<close> have d: "d = cu CHR ''-''" by simp
    from 1 \<open>isMarker m\<close> consider "isBrackets (x # rest)" | "whiteSpace x" "isBrackets rest"
      by auto
    then show ?thesis
    proof cases
      case 1
      have "m = cu CHR ''-'' # [] @ (x # rest)" using d \<open>m = d # x # rest\<close> by simp
      then show ?thesis using 1 by (metis lang_optSpace)
    next
      case 2
      have "m = cu CHR ''-'' # [x] @ rest" using d \<open>m = d # x # rest\<close> by simp
      then show ?thesis using 2 by (metis lang_optSpace)
    qed
  qed simp_all
next
  assume "\<exists>sp b. m = cu CHR ''-'' # sp @ b \<and> sp \<in> lang (Opt (Atom WhiteSpace)) \<and> isBrackets b"
  then obtain sp b where m: "m = cu CHR ''-'' # sp @ b"
    and sp: "sp = [] \<or> (\<exists>c. sp = [c] \<and> whiteSpace c)" and b: "isBrackets b"
    by (auto simp del: lang.simps simp: lang_optSpace)
  from b obtain y ys where "b = y # ys" by (cases b) auto
  with m sp b show "isMarker m" by auto
qed

lemma tableRegex_eq:
  "tableRegex = Seq (Star (OneOf WhiteSpace (Lit (cu CHR ''>'')))) (Seq (chr CHR ''|'')
     (Seq (Star AnyChar) (Seq (chr CHR ''-'') (Seq (Opt (Atom WhiteSpace))
       (Seq bracketsRegex (Seq (Star AnyChar) Eps))))))"
  by (simp add: tableRegex_def)

lemma lang_tableRegex:
  "w \<in> lang tableRegex \<longleftrightarrow>
     (\<exists>p d m d2. w = p @ cu CHR ''|'' # d @ m @ d2
        \<and> isIndent p \<and> isLine d \<and> isMarker m \<and> isLine d2)"
proof
  assume "w \<in> lang tableRegex"
  then obtain p r1 where 1: "w = p @ r1" "p \<in> lang (Star (OneOf WhiteSpace (Lit (cu CHR ''>''))))"
      "r1 \<in> lang (Seq (chr CHR ''|'') (Seq (Star AnyChar) (Seq (chr CHR ''-'')
         (Seq (Opt (Atom WhiteSpace)) (Seq bracketsRegex (Seq (Star AnyChar) Eps))))))"
    unfolding tableRegex_eq by (erule lang_SeqE)
  from 1(3) obtain x r2 where 2: "r1 = x @ r2" "x \<in> lang (chr CHR ''|'')"
      "r2 \<in> lang (Seq (Star AnyChar) (Seq (chr CHR ''-'')
         (Seq (Opt (Atom WhiteSpace)) (Seq bracketsRegex (Seq (Star AnyChar) Eps)))))"
    by (erule lang_SeqE)
  from 2(3) obtain d r3 where 3: "r2 = d @ r3" "d \<in> lang (Star AnyChar)"
      "r3 \<in> lang (Seq (chr CHR ''-'') (Seq (Opt (Atom WhiteSpace))
         (Seq bracketsRegex (Seq (Star AnyChar) Eps))))"
    by (erule lang_SeqE)
  from 3(3) obtain y r4 where 4: "r3 = y @ r4" "y \<in> lang (chr CHR ''-'')"
      "r4 \<in> lang (Seq (Opt (Atom WhiteSpace)) (Seq bracketsRegex (Seq (Star AnyChar) Eps)))"
    by (erule lang_SeqE)
  from 4(3) obtain sp r5 where 5: "r4 = sp @ r5" "sp \<in> lang (Opt (Atom WhiteSpace))"
      "r5 \<in> lang (Seq bracketsRegex (Seq (Star AnyChar) Eps))"
    by (erule lang_SeqE)
  from 5(3) obtain b r6 where 6: "r5 = b @ r6" "b \<in> lang bracketsRegex"
      "r6 \<in> lang (Seq (Star AnyChar) Eps)"
    by (erule lang_SeqE)
  from 6(3) obtain d2 where 7: "r6 = d2" "d2 \<in> lang (Star AnyChar)"
    by auto
  have w: "w = p @ cu CHR ''|'' # d @ cu CHR ''-'' # sp @ b @ d2"
    using 1(1) 2(1,2) 3(1) 4(1,2) 5(1) 6(1) 7(1) by (simp add: chr_def)
  have p: "isIndent p" using 1(2) by (simp add: isIndent_def list_all_iff)
  have d: "isLine d" using 3(2) by (simp add: isLine_def list_all_iff)
  have d2: "isLine d2" using 7(2) by (simp add: isLine_def list_all_iff)
  have "isMarker (cu CHR ''-'' # sp @ b)" using 5(2) 6(2) isMarker_iff lang_brackets by blast
  moreover have "w = p @ cu CHR ''|'' # d @ (cu CHR ''-'' # sp @ b) @ d2" using w by simp
  ultimately show "\<exists>p d m d2. w = p @ cu CHR ''|'' # d @ m @ d2
      \<and> isIndent p \<and> isLine d \<and> isMarker m \<and> isLine d2"
    using p d d2 by blast
next
  assume "\<exists>p d m d2. w = p @ cu CHR ''|'' # d @ m @ d2
      \<and> isIndent p \<and> isLine d \<and> isMarker m \<and> isLine d2"
  then obtain p d m d2 where w: "w = p @ cu CHR ''|'' # d @ m @ d2"
    and p: "isIndent p" and d: "isLine d" and m: "isMarker m" and d2: "isLine d2" by blast
  from m obtain sp b where mm: "m = cu CHR ''-'' # sp @ b"
    and sp: "sp \<in> lang (Opt (Atom WhiteSpace))"
    and b: "b \<in> lang bracketsRegex" using isMarker_iff lang_brackets by blast
  have 1: "p \<in> lang (Star (OneOf WhiteSpace (Lit (cu CHR ''>''))))"
    using p by (simp add: isIndent_def list_all_iff)
  have 2: "[cu CHR ''|''] \<in> lang (chr CHR ''|'')" by (simp add: chr_def)
  have 3: "d \<in> lang (Star AnyChar)" using d by (simp add: isLine_def list_all_iff)
  have 4: "[cu CHR ''-''] \<in> lang (chr CHR ''-'')" by (simp add: chr_def)
  have 5: "d2 \<in> lang (Star AnyChar)" using d2 by (simp add: isLine_def list_all_iff)
  have 6: "[] \<in> lang Eps" by simp
  have "p @ [cu CHR ''|''] @ d @ [cu CHR ''-''] @ sp @ b @ d2 @ [] \<in> lang tableRegex"
    unfolding tableRegex_eq
    by (intro lang_SeqI 1 2 3 4 5 6 sp b)
  then show "w \<in> lang tableRegex" using w mm by simp
qed

lemma test_bol_start: "ends r s \<noteq> [] \<Longrightarrow> test_bol r True s"
  by (cases s) auto

lemma test_bol_ex: "test_bol r b s \<Longrightarrow> \<exists>u v. s = u @ v \<and> ends r v \<noteq> []"
proof (induction s arbitrary: b)
  case Nil
  then show ?case by auto
next
  case (Cons x xs)
  from Cons.prems consider "ends r (x # xs) \<noteq> []" | "test_bol r (lineTerminator x) xs" by auto
  then show ?case
  proof cases
    case 1
    then show ?thesis by (metis append_Nil)
  next
    case 2
    then obtain u v where "xs = u @ v" "ends r v \<noteq> []" using Cons.IH by blast
    then have "x # xs = (x # u) @ v" by simp
    then show ?thesis using \<open>ends r v \<noteq> []\<close> by blast
  qed
qed

text \<open>
  C5, as the source has it. A row that is an indentation of white space and blockquote
  markers, a pipe, any text without a line terminator, a checkbox marker and any further
  text is in the table context. A row in which no pipe stands before a checkbox marker is
  not.
\<close>

theorem isMDCheckboxInTable_pipe_before_marker:
  "(isIndent pre \<and> isLine mid \<and> isMarker m
      \<longrightarrow> isMDCheckboxInTable (pre @ cu CHR ''|'' # mid @ m @ post))
   \<and> ((\<forall>a b k c. rowValue = a @ cu CHR ''|'' # b @ k @ c \<longrightarrow> \<not> isMarker k)
      \<longrightarrow> \<not> isMDCheckboxInTable rowValue)"
proof (intro conjI impI)
  assume h: "isIndent pre \<and> isLine mid \<and> isMarker m"
  have "isLine []" by (simp add: isLine_def)
  with h have "pre @ cu CHR ''|'' # mid @ m @ [] \<in> lang tableRegex"
    unfolding lang_tableRegex by blast
  moreover have "pre @ cu CHR ''|'' # mid @ m @ post = (pre @ cu CHR ''|'' # mid @ m @ []) @ post"
    by simp
  ultimately have "ends tableRegex (pre @ cu CHR ''|'' # mid @ m @ post) \<noteq> []"
    unfolding ends_nonempty_iff by blast
  then show "isMDCheckboxInTable (pre @ cu CHR ''|'' # mid @ m @ post)"
    unfolding isMDCheckboxInTable_def by (rule test_bol_start)
next
  assume none: "\<forall>a b k c. rowValue = a @ cu CHR ''|'' # b @ k @ c \<longrightarrow> \<not> isMarker k"
  show "\<not> isMDCheckboxInTable rowValue"
  proof
    assume "isMDCheckboxInTable rowValue"
    then obtain u v where uv: "rowValue = u @ v" "ends tableRegex v \<noteq> []"
      unfolding isMDCheckboxInTable_def using test_bol_ex by blast
    then obtain w e where we: "w \<in> lang tableRegex" "v = w @ e"
      unfolding ends_nonempty_iff by blast
    then obtain p d k d2 where "w = p @ cu CHR ''|'' # d @ k @ d2" "isMarker k"
      unfolding lang_tableRegex by blast
    with uv we have "rowValue = (u @ p) @ cu CHR ''|'' # d @ k @ (d2 @ e)" by simp
    with none \<open>isMarker k\<close> show False by blast
  qed
qed

theorem isMDCheckboxInTable_pipe_before_marker_witness:
  "isMDCheckboxInTable (js ''  > | a | - [ ] | b'') \<and> \<not> isMDCheckboxInTable (js ''- [ ] a'')"
proof -
  have 1: "isIndent (js ''  > '') \<and> isLine (js '' a | '') \<and> isMarker (js ''- [ ]'')"
    by (simp add: isIndent_def isLine_def eval_defs)
  have 2: "\<forall>a b k c. js ''- [ ] a'' = a @ cu CHR ''|'' # b @ k @ c \<longrightarrow> \<not> isMarker k"
  proof (intro allI impI)
    fix a b k c
    assume "js ''- [ ] a'' = a @ cu CHR ''|'' # b @ k @ c"
    then have "cu CHR ''|'' \<in> set (js ''- [ ] a'')" by simp
    then show "\<not> isMarker k" by (simp add: eval_defs)
  qed
  have eq: "js ''  > | a | - [ ] | b''
      = js ''  > '' @ cu CHR ''|'' # js '' a | '' @ js ''- [ ]'' @ js '' | b''"
    by (simp add: eval_defs)
  show ?thesis
    using isMDCheckboxInTable_pipe_before_marker
      [of "js ''  > ''" "js '' a | ''" "js ''- [ ]''" "js '' | b''" "js ''- [ ] a''"] 1 2
    unfolding eq by blast
qed

text \<open>
  C5, as the claim states it, fails. A line of the document ends at a line feed only, and
  it can hold the other line terminators of patterns. In the line \<^verbatim>\<open>|a\<close>, U+2028,
  \<^verbatim>\<open>-[ ]\<close> the marker stands after the pipe, and the line is not in the table context:
  the dot of the pattern does not match the line separator between them.
\<close>

theorem isMDCheckboxInTable_line_separator:
  "split_lines (js ''|a'' @ 8232 # js ''-[ ]'') = [[] @ cu CHR ''|'' # (js ''a'' @ [8232]) @ js ''-[ ]'' @ []]
   \<and> isIndent []
   \<and> isMarker (js ''-[ ]'')
   \<and> \<not> isMDCheckboxInTable ([] @ cu CHR ''|'' # (js ''a'' @ [8232]) @ js ''-[ ]'' @ [])"
  by (simp add: isIndent_def model_defs eval_defs)

subsection \<open>The span of a typed checkbox\<close>

text \<open>
  C2, as the source has it. On the line \<^verbatim>\<open>| a | - [ ] |\<close> the closing bracket is at
  index 10. With the position at index 10, the index of the closing bracket,
  \<open>getCheckboxLength\<close> returns the token \<^verbatim>\<open>- [ ]\<close>, which is 5 code units long and ends
  with the closing bracket, so the token is complete.
\<close>

theorem getCheckboxLength_at_bracket:
  "char_at (js ''| a | - [ ] |'') 10 = Some (cu CHR '']'')
   \<and> getCheckboxLength (js ''| a | - [ ] |'') 10 = Some (js ''- [ ]'')
   \<and> length (js ''- [ ]'') = 5
   \<and> endsWith (js ''- [ ]'') (js '']'')"
  by (simp add: model_defs eval_defs)

text \<open>
  C2, as the claim states it, fails: with the position at index 11, just after the closing
  bracket, the window is the four code units before the position, which do not hold the
  dash, and \<open>getCheckboxLength\<close> returns nothing.
\<close>

theorem getCheckboxLength_after_bracket:
  "getCheckboxLength (js ''| a | - [ ] |'') 11 = None"
  by (simp add: model_defs eval_defs)

text \<open>The selection is as long as the matched text, and its end is one place after the
  cursor exactly when the matched text ends with a closing bracket.\<close>

lemma checkboxSelection_span:
  "checkboxSelection ch checkbox = (a, b)
     \<Longrightarrow> b - a = int (length checkbox)
         \<and> b = (if endsWith checkbox (js '']'') then ch + 1 else ch)"
  by (auto simp: checkboxSelection_def Let_def)

text \<open>
  C3 fails on the line \<^verbatim>\<open>|-[a[\<close> with the cursor at column 5, where the closing bracket
  is typed: every check passes, the matched text is \<^verbatim>\<open>-[\<close> at columns 1 to 3, the
  leftmost match in the window, and the selection that is replaced is columns 3 to 5,
  whose text is \<^verbatim>\<open>a[\<close>.
\<close>

theorem onInput_selects_other_text:
  "onInput (js ''|-[a['') 5 = Some (js ''-['', 3, 5)
   \<and> selectedText (js ''|-[a['') (3, 5) = js ''a[''
   \<and> selectedText (js ''|-[a['') (3, 5) \<noteq> js ''-[''"
  by (simp add: model_defs eval_defs)

section \<open>Properties of the identifier generator\<close>

lemma uuidFrom_chars: "uuidFrom i s \<Longrightarrow> list_all (\<lambda>c. hexDigit c \<or> c = cu CHR ''-'') s"
  by (induction s arbitrary: i) (auto split: if_splits)

lemma isUUID_idChars: "isUUID s \<Longrightarrow> idChars s"
  unfolding isUUID_def idChars_def by (rule uuidFrom_chars)

lemma idChar_plain: "hexDigit c \<or> c = cu CHR ''-'' \<Longrightarrow> \<not> syntaxCharacter c"
  by (auto simp: hexDigit_def syntaxCharacter_def js_def cu_def)

lemma idChars_plainId: "idChars s \<Longrightarrow> plainId s"
  unfolding idChars_def plainId_def
  using idChar_plain by (auto simp: list_all_iff)

lemma idChars_slice_from: "idChars s \<Longrightarrow> idChars (slice_from s a)"
  unfolding idChars_def slice_from_def list_all_iff by (auto dest: in_set_dropD)

lemma RegExp_plainId: "plainId s \<Longrightarrow> RegExp s = Some (lits s)"
proof -
  assume p: "plainId s"
  have dot: "syntaxCharacter (cu CHR ''.'')" by (simp add: syntaxCharacter_def js_def cu_def)
  from p have "\<forall>c\<in>set s. c \<noteq> cu CHR ''.''"
    unfolding plainId_def list_all_iff using dot by auto
  then have eq: "map (\<lambda>c. Atom (if c = cu CHR ''.'' then AnyChar else Lit c)) s = map (\<lambda>c. Atom (Lit c)) s"
    by auto
  from p have la: "list_all (\<lambda>c. c = cu CHR ''.'' \<or> \<not> syntaxCharacter c) s"
    unfolding plainId_def list_all_iff by auto
  show ?thesis unfolding RegExp_def lits_def eq using la by simp
qed

lemma idExistsInFile_plainId: "plainId s \<Longrightarrow> idExistsInFile s page = Some (sublist s page)"
  by (simp add: idExistsInFile_def RegExp_plainId search_lits_None_iff)

lemma regenerate_returns:
  assumes "\<forall>j. idChars (rnd j)"
  shows "idChars ident \<Longrightarrow> \<not> sublist (if k = 0 then ident else rnd (n + k - 1)) page
    \<Longrightarrow> \<exists>ident' n'. regenerate rnd page ident n = Some (ident', n')
          \<and> idChars ident' \<and> \<not> sublist ident' page"
proof (induction k arbitrary: ident n)
  case 0
  then have "idExistsInFile ident page = Some False"
    by (simp add: idExistsInFile_plainId idChars_plainId)
  then have "regenerate rnd page ident n = Some (ident, n)"
    by (subst regenerate.simps) simp
  with 0 show ?case by simp
next
  case (Suc k)
  show ?case
  proof (cases "sublist ident page")
    case False
    with Suc.prems(1) have "idExistsInFile ident page = Some False"
      by (simp add: idExistsInFile_plainId idChars_plainId)
    then have "regenerate rnd page ident n = Some (ident, n)"
      by (subst regenerate.simps) simp
    with False Suc.prems(1) show ?thesis by simp
  next
    case True
    with Suc.prems(1) have "idExistsInFile ident page = Some True"
      by (simp add: idExistsInFile_plainId idChars_plainId)
    then have step: "regenerate rnd page ident n = regenerate rnd page (rnd n) (Suc n)"
      by (subst regenerate.simps) simp
    have "\<not> sublist (if k = 0 then rnd n else rnd (Suc n + k - 1)) page"
      using Suc.prems(2) by (cases k) simp_all
    with Suc.IH[of "rnd n" "Suc n"] assms step show ?thesis by simp
  qed
qed

text \<open>
  C6. When every result of the random source is a UUID and some candidate of
  \<open>generateUniqueCheckboxId\<close> does not occur in the document, the function returns, and
  the identifier that it returns does not occur in the document.
\<close>

theorem generateUniqueCheckboxId_fresh:
  assumes "\<forall>k. isUUID (rnd k)"
    and "\<exists>k. \<not> sublist (candidate rnd n k) page"
  shows "\<exists>ident n'. generateUniqueCheckboxId rnd page n = Some (ident, n')
           \<and> \<not> sublist ident page"
proof -
  from assms(1) have chars: "\<forall>j. idChars (rnd j)" using isUUID_idChars by blast
  then have first: "idChars (slice_from (rnd n) (- 6))" by (simp add: idChars_slice_from)
  from assms(2) obtain k where k: "\<not> sublist (candidate rnd n k) page" by blast
  have "\<not> sublist (if k = 0 then slice_from (rnd n) (- 6) else rnd (Suc n + k - 1)) page"
    using k by (cases k) simp_all
  from regenerate_returns[OF chars first this] show ?thesis
    by (auto simp: generateUniqueCheckboxId_def)
qed

theorem generateUniqueCheckboxId_fresh_witness:
  "\<exists>ident n'. generateUniqueCheckboxId (\<lambda>k. js ''0f8fad5b-d9cb-469f-a165-70867728950e'')
       (js ''| 28950e | - [ ] |'') 0 = Some (ident, n')
     \<and> \<not> sublist ident (js ''| 28950e | - [ ] |'')"
proof -
  have 1: "\<forall>k. isUUID ((\<lambda>k. js ''0f8fad5b-d9cb-469f-a165-70867728950e'') k)"
    by (simp add: isUUID_def hexDigit_def js_def cu_def)
  have "\<not> sublist (candidate (\<lambda>k. js ''0f8fad5b-d9cb-469f-a165-70867728950e'') 0 1)
          (js ''| 28950e | - [ ] |'')"
    by (simp add: js_def cu_def sublist_code prefix_code)
  then have 2: "\<exists>k. \<not> sublist (candidate (\<lambda>k. js ''0f8fad5b-d9cb-469f-a165-70867728950e'') 0 k)
          (js ''| 28950e | - [ ] |'')" by blast
  show ?thesis using generateUniqueCheckboxId_fresh[OF 1 2] .
qed

text \<open>
  C1 fails when two results of the random source have the same last six code units:
  the two identifiers of a batch for a document with two checkboxes are then the same,
  since no call of \<open>generateUniqueCheckboxId\<close> knows of the identifiers of the calls
  before it.
\<close>

theorem generateIds_duplicates:
  "getCheckboxesToConvert (js ''| - [ ] | - [ ] |'') False = [(0, 2, 7), (0, 10, 15)]
   \<and> generateIds
        (\<lambda>k. if k = 0 then js ''0f8fad5b-d9cb-469f-a165-70867728950e''
              else js ''7c9e6679-7425-40de-944b-e07fc128950e'')
        (js ''| - [ ] | - [ ] |'') 2 0
       = Some ([js ''28950e'', js ''28950e''], 2)"
proof -
  define rnd :: random where
    "rnd = (\<lambda>k. if k = 0 then js ''0f8fad5b-d9cb-469f-a165-70867728950e''
              else js ''7c9e6679-7425-40de-944b-e07fc128950e'')"
  define page where "page = js ''| - [ ] | - [ ] |''"
  have t0: "slice_from (rnd 0) (- 6) = js ''28950e''"
    by (simp add: rnd_def eval_defs)
  have t1: "slice_from (rnd (Suc 0)) (- 6) = js ''28950e''"
    by (simp add: rnd_def eval_defs)
  have e: "idExistsInFile (js ''28950e'') page = Some False"
    by (simp add: page_def idExistsInFile_def eval_defs)
  have g: "\<And>n. regenerate rnd page (js ''28950e'') n = Some (js ''28950e'', n)"
    by (subst regenerate.simps) (simp add: e)
  have "generateIds rnd page 2 0 = Some ([js ''28950e'', js ''28950e''], 2)"
    by (simp add: numeral_2_eq_2 generateUniqueCheckboxId_def t0 t1 g)
  moreover have "getCheckboxesToConvert page False = [(0, 2, 7), (0, 10, 15)]"
    by (simp add: page_def model_defs eval_defs)
  ultimately show ?thesis unfolding rnd_def page_def by simp
qed

section \<open>Properties of the toggle synchronizer\<close>

lemma lang_toggleRegex:
  "lang (seqs [lits a, Opt (lits b), lits c, lits i, lits d]) = {a @ c @ i @ d, a @ b @ c @ i @ d}"
  by (auto simp: lang_lits)

lemma toggleRegex_plainId:
  assumes "plainId checkboxId"
  shows "\<exists>r. toggleRegex checkboxId = Some r
           \<and> lang r = {control True checkboxId, control False checkboxId}"
proof -
  define r where "r = seqs [lits (js ''<input type=\"checkbox\" ''), Opt (lits (js ''un'')),
                    lits (js ''checked id=\"''), lits checkboxId, lits (js ''\">'')]"
  have 1: "toggleRegex checkboxId = Some r"
    by (simp add: r_def toggleRegex_def RegExp_plainId[OF assms])
  have 2: "lang r = {js ''<input type=\"checkbox\" '' @ js ''checked id=\"'' @ checkboxId @ js ''\">'',
      js ''<input type=\"checkbox\" '' @ js ''un'' @ js ''checked id=\"'' @ checkboxId @ js ''\">''}"
    unfolding r_def by (rule lang_toggleRegex)
  have 3: "control True checkboxId
      = js ''<input type=\"checkbox\" '' @ js ''checked id=\"'' @ checkboxId @ js ''\">''"
    "control False checkboxId
      = js ''<input type=\"checkbox\" '' @ js ''un'' @ js ''checked id=\"'' @ checkboxId @ js ''\">''"
    by (simp_all add: control_def)
  show ?thesis unfolding 3 using 1 2 by blast
qed

lemma search_None_lang:
  assumes "\<forall>m\<in>lang r. \<not> sublist m page"
  shows "search r page = None"
  unfolding search_None_iff
proof (intro allI impI)
  fix u v
  assume page: "page = u @ v"
  show "match_at r v = None"
  proof (cases "match_at r v")
    case (Some me)
    obtain m e where "me = (m, e)" by (cases me)
    with Some have "v = m @ e" "m \<in> lang r" using match_at_SomeD by blast+
    with page have "sublist m page" by (auto simp: sublist_def)
    with assms \<open>m \<in> lang r\<close> show ?thesis by blast
  qed simp
qed

lemma control_no_dollar: "plainId checkboxId \<Longrightarrow> cu CHR ''$'' \<notin> set (control b checkboxId)"
proof -
  assume "plainId checkboxId"
  moreover have "syntaxCharacter (cu CHR ''$'')" by (simp add: syntaxCharacter_def js_def cu_def)
  ultimately have "cu CHR ''$'' \<notin> set checkboxId"
    unfolding plainId_def list_all_iff by blast
  then show ?thesis by (simp add: control_def js_def cu_def)
qed

text \<open>For an identifier without a syntax character of patterns the toggle rewrites the
  first control of this identifier and nothing else.\<close>

lemma control_differ: "control True i @ x \<noteq> control False i @ y"
  by (simp add: control_def js_def cu_def)

lemma toggleCheckbox_first_control:
  assumes "plainId checkboxId"
    and "page = pre @ control b checkboxId @ post"
    and "\<forall>p1 p2. pre = p1 @ p2 \<and> p2 \<noteq> []
           \<longrightarrow> \<not> prefix (control True checkboxId) (p2 @ control b checkboxId @ post)
               \<and> \<not> prefix (control False checkboxId) (p2 @ control b checkboxId @ post)"
  shows "toggleCheckbox page file isChecked checkboxId
           = Some (file\<lparr>fileText := pre @ control isChecked checkboxId @ post,
                        modifyCalls := Suc (modifyCalls file)\<rparr>)"
proof -
  from toggleRegex_plainId[OF assms(1)] obtain r where r: "toggleRegex checkboxId = Some r"
    and l: "lang r = {control True checkboxId, control False checkboxId}" by blast
  have "control b checkboxId \<in> lang r" using l by (cases b) simp_all
  then have "match_at r (control b checkboxId @ post) \<noteq> None" by (rule match_at_lang)
  then obtain m e where me: "match_at r (control b checkboxId @ post) = Some (m, e)" by auto
  from match_at_SomeD[OF me] have d: "control b checkboxId @ post = m @ e" "m \<in> lang r" by simp_all
  have "m = control b checkboxId"
  proof (rule ccontr)
    assume ne: "m \<noteq> control b checkboxId"
    with d(2) l have "m = control (\<not> b) checkboxId" by (cases b) auto
    with d(1) show False using control_differ[of checkboxId] by (cases b) (auto dest: sym)
  qed
  with d(1) me have m: "match_at r (control b checkboxId @ post) = Some (control b checkboxId, post)"
    by simp
  have early: "\<forall>p1 p2. pre = p1 @ p2 \<and> p2 \<noteq> []
      \<longrightarrow> match_at r (p2 @ control b checkboxId @ post) = None"
  proof (intro allI impI)
    fix p1 p2
    assume h: "pre = p1 @ p2 \<and> p2 \<noteq> []"
    show "match_at r (p2 @ control b checkboxId @ post) = None"
    proof (cases "match_at r (p2 @ control b checkboxId @ post)")
      case (Some me')
      obtain m' e' where "me' = (m', e')" by (cases me')
      with Some match_at_SomeD[of r _ m' e']
      have "p2 @ control b checkboxId @ post = m' @ e'" "m' \<in> lang r" by simp_all
      then have "prefix (control True checkboxId) (p2 @ control b checkboxId @ post)
          \<or> prefix (control False checkboxId) (p2 @ control b checkboxId @ post)"
        using l by (auto simp: prefix_def)
      with assms(3) h show ?thesis by blast
    qed simp
  qed
  from search_first[OF m early]
  have "search r page = Some (length pre, control b checkboxId, post)" by (simp add: assms(2))
  then have "replaceFirst r (control isChecked checkboxId) page
      = Some (pre @ control isChecked checkboxId @ post)"
    using control_no_dollar[OF assms(1)] by (simp add: replaceFirst_def assms(2))
  with r show ?thesis by (simp add: toggleCheckbox_def)
qed

text \<open>
  C7 fails for an identifier with a syntax character of patterns. In a document with a
  control of the identifier \<^verbatim>\<open>a-1\<close> and then a control of the identifier \<^verbatim>\<open>a.1\<close>,
  the toggle of \<^verbatim>\<open>a.1\<close> rewrites the control of \<^verbatim>\<open>a-1\<close>, identifier and state, and
  leaves the control of \<^verbatim>\<open>a.1\<close> as it is.
\<close>

theorem toggle_rewrites_other_control:
  "map_option fileText
     (onChange \<lparr>fileText = control False (js ''a-1'') @ js '' '' @ control False (js ''a.1''),
                modifyCalls = 0\<rparr> True (js ''a.1''))
   = Some (control True (js ''a.1'') @ js '' '' @ control False (js ''a.1''))"
  by (simp add: model_defs eval_defs)

text \<open>
  C8, as the claim states it, fails: in a document without a control of the identifier the
  toggle still writes the file once, with the text that it has read.
\<close>

theorem toggle_writes_without_match:
  "onChange \<lparr>fileText = js ''| a | b |'', modifyCalls = 0\<rparr> True (js ''abc123'')
     = Some \<lparr>fileText = js ''| a | b |'', modifyCalls = 1\<rparr>"
  by (simp add: model_defs eval_defs)

text \<open>
  C8, as the source has it. For an identifier without a syntax character of patterns and a
  file without a control of this identifier, checked or unchecked, the toggle writes the
  file once and its text is the text that was there.
\<close>

theorem toggle_without_control:
  assumes "plainId checkboxId"
    and "\<not> sublist (control True checkboxId) (fileText file)"
    and "\<not> sublist (control False checkboxId) (fileText file)"
  shows "onChange file isChecked checkboxId = Some (file\<lparr>modifyCalls := Suc (modifyCalls file)\<rparr>)"
proof -
  from toggleRegex_plainId[OF assms(1)] obtain r where r: "toggleRegex checkboxId = Some r"
    and l: "lang r = {control True checkboxId, control False checkboxId}" by blast
  have "search r (fileText file) = None"
    by (rule search_None_lang) (use l assms(2,3) in auto)
  then have "replaceFirst r (control isChecked checkboxId) (fileText file) = Some (fileText file)"
    using control_no_dollar[OF assms(1)] by (simp add: replaceFirst_def)
  with r show ?thesis by (simp add: onChange_def toggleCheckbox_def)
qed

theorem toggle_without_control_witness:
  "onChange \<lparr>fileText = control False (js ''def456''), modifyCalls = 0\<rparr> True (js ''abc123'')
     = Some \<lparr>fileText = control False (js ''def456''), modifyCalls = 1\<rparr>"
proof -
  have 1: "plainId (js ''abc123'')" by (simp add: plainId_def syntaxCharacter_def js_def cu_def)
  have 2: "\<not> sublist (control True (js ''abc123'')) (control False (js ''def456''))"
    by (simp add: control_def js_def cu_def sublist_code prefix_code)
  have 3: "\<not> sublist (control False (js ''abc123'')) (control False (js ''def456''))"
    by (simp add: control_def js_def cu_def sublist_code prefix_code)
  show ?thesis
    using toggle_without_control[of "js ''abc123''"
        "\<lparr>fileText = control False (js ''def456''), modifyCalls = 0\<rparr>" True] 1 2 3
    by simp
qed

section \<open>Properties of the bulk converter\<close>

subsection \<open>The recorded spans\<close>

lemma not_ws_brackets:
  "\<not> whiteSpace (cu CHR ''['')" "\<not> whiteSpace (cu CHR '']'')" "\<not> whiteSpace (cu CHR ''-'')"
  by (simp_all add: whiteSpace_def cu_def)

lemma cu_distinct:
  "cu CHR ''['' \<noteq> cu CHR '']''" "cu CHR '']'' \<noteq> cu CHR ''[''"
  "cu CHR ''-'' \<noteq> cu CHR ''[''" "cu CHR ''-'' \<noteq> cu CHR '']''"
  "cu CHR ''['' \<noteq> cu CHR ''-''" "cu CHR '']'' \<noteq> cu CHR ''-''"
  by (simp_all add: cu_def)

lemma append_eq_cases:
  assumes "p @ x = a @ y"
  obtains u where "p = a @ u" "u @ x = y" | u where "u \<noteq> []" "p @ u = a" "x = u @ y"
proof -
  from assms obtain us where us: "p = a @ us \<and> us @ x = y \<or> p @ us = a \<and> x = us @ y"
    unfolding append_eq_append_conv2 by blast
  show thesis
  proof (cases "p = a @ us \<and> us @ x = y")
    case True
    then show thesis using that(1) by blast
  next
    case False
    with us have h: "p @ us = a" "x = us @ y" by blast+
    show thesis
    proof (cases "us = []")
      case True
      with h have "p = a @ []" "[] @ x = y" by simp_all
      then show thesis using that(1) by blast
    next
      case False
      with h show thesis using that(2) by blast
    qed
  qed
qed

lemma checkboxRegexG_eq:
  "checkboxRegexG = Seq (chr CHR ''-'') (Seq (Opt (Atom WhiteSpace)) (Seq (chr CHR ''['')
     (Seq (Opt (Atom WhiteSpace)) (Seq (chr CHR '']'') Eps))))"
  by (simp add: checkboxRegexG_def)

lemma lang_checkboxRegexG_I:
  assumes "sp \<in> lang (Opt (Atom WhiteSpace))" and "sp' \<in> lang (Opt (Atom WhiteSpace))"
  shows "cu CHR ''-'' # sp @ cu CHR ''['' # sp' @ [cu CHR '']''] \<in> lang checkboxRegexG"
proof -
  have 1: "[cu CHR ''-''] \<in> lang (chr CHR ''-'')" by (simp add: chr_def)
  have 2: "[cu CHR ''[''] \<in> lang (chr CHR ''['')" by (simp add: chr_def)
  have 3: "[cu CHR '']''] \<in> lang (chr CHR '']'')" by (simp add: chr_def)
  have 4: "[] \<in> lang Eps" by simp
  have "[cu CHR ''-''] @ sp @ [cu CHR ''[''] @ sp' @ [cu CHR '']''] @ [] \<in> lang checkboxRegexG"
    unfolding checkboxRegexG_eq by (intro lang_SeqI 1 2 3 4 assms)
  then show ?thesis by simp
qed

lemma lang_checkboxRegexG: "t \<in> lang checkboxRegexG \<longleftrightarrow> isToken t"
proof
  assume "t \<in> lang checkboxRegexG"
  then show "isToken t"
    by (auto simp: checkboxRegexG_def chr_def)
next
  assume t: "isToken t"
  have e: "[] \<in> lang (Opt (Atom WhiteSpace))" by simp
  have w: "\<And>c. whiteSpace c \<Longrightarrow> [c] \<in> lang (Opt (Atom WhiteSpace))" by simp
  from t show "t \<in> lang checkboxRegexG"
  proof (cases t rule: isToken.cases)
    case (1 d a b)
    with t lang_checkboxRegexG_I[OF e e] show ?thesis by simp
  next
    case (2 d a b c)
    with t consider "whiteSpace a" "b = cu CHR ''[''" | "a = cu CHR ''[''" "whiteSpace b" by auto
    then show ?thesis
    proof cases
      case 1
      with 2 t lang_checkboxRegexG_I[OF w[of a] e] show ?thesis by simp
    next
      case 2
      with \<open>t = [d, a, b, c]\<close> t lang_checkboxRegexG_I[OF e w[of b]] show ?thesis by simp
    qed
  next
    case (3 d x a v b)
    with t lang_checkboxRegexG_I[OF w[of x] w[of v]] show ?thesis by simp
  qed simp_all
qed

lemma isToken_unique:
  assumes "isToken t" and "isToken t'" and "t @ b = t' @ b'"
  shows "t = t'"
  using assms
  by (cases t rule: isToken.cases; cases t' rule: isToken.cases)
     (auto simp: not_ws_brackets cu_distinct)

lemma isToken_dash: "isToken t \<Longrightarrow> \<exists>r. t = cu CHR ''-'' # r \<and> cu CHR ''-'' \<notin> set r"
  by (cases t rule: isToken.cases) (auto simp: not_ws_brackets cu_distinct)

lemma match_at_checkboxRegexG:
  "match_at checkboxRegexG s = Some (m, e) \<longleftrightarrow> s = m @ e \<and> isToken m"
proof
  assume "match_at checkboxRegexG s = Some (m, e)"
  then show "s = m @ e \<and> isToken m"
    using match_at_SomeD lang_checkboxRegexG by blast
next
  assume h: "s = m @ e \<and> isToken m"
  then have "match_at checkboxRegexG s \<noteq> None"
    using match_at_lang lang_checkboxRegexG by blast
  then obtain m' e' where me: "match_at checkboxRegexG s = Some (m', e')" by auto
  then have "s = m' @ e'" "isToken m'" using match_at_SomeD lang_checkboxRegexG by blast+
  with h have "m' = m" using isToken_unique by metis
  with \<open>s = m' @ e'\<close> h have "e' = e" by simp
  with me \<open>m' = m\<close> show "match_at checkboxRegexG s = Some (m, e)" by simp
qed

lemma execAll_None: "search checkboxRegexG s = None \<Longrightarrow> execAll k s = []"
  by (subst execAll.simps) simp

lemma execAll_Some:
  "search checkboxRegexG s = Some (i, m, e)
     \<Longrightarrow> execAll k s = (k + i, k + i + length m) # execAll (k + i + length m) e"
  by (subst execAll.simps) simp

text \<open>Every span that the loop records is the place of a token.\<close>

lemma execAll_sound:
  "(f, t) \<in> set (execAll k s)
     \<Longrightarrow> \<exists>a tok b. s = a @ tok @ b \<and> isToken tok \<and> f = k + length a \<and> t = f + length tok"
proof (induction "length s" arbitrary: s k rule: less_induct)
  case less
  show ?case
  proof (cases "search checkboxRegexG s")
    case None
    with less.prems show ?thesis by (simp add: execAll_None)
  next
    case (Some ime)
    obtain i m e where ime: "ime = (i, m, e)" by (cases ime)
    with Some have s: "search checkboxRegexG s = Some (i, m, e)" by simp
    from search_SomeD[OF s] obtain p where p: "s = p @ m @ e" "length p = i"
        "match_at checkboxRegexG (m @ e) = Some (m, e)" by blast
    then have tok: "isToken m" using match_at_checkboxRegexG by blast
    from less.prems consider "(f, t) = (k + i, k + i + length m)"
      | "(f, t) \<in> set (execAll (k + i + length m) e)"
      by (auto simp: execAll_Some[OF s])
    then show ?thesis
    proof cases
      case 1
      with p tok show ?thesis by auto
    next
      case 2
      have "length e < length s" using s by (rule search_checkboxRegexG_shorter)
      from less.hyps[OF this 2] obtain a tok' b where
        "e = a @ tok' @ b" "isToken tok'" "f = k + i + length m + length a" "t = f + length tok'"
        by blast
      with p have "s = (p @ m @ a) @ tok' @ b \<and> isToken tok' \<and> f = k + length (p @ m @ a)
          \<and> t = f + length tok'" by simp
      then show ?thesis by blast
    qed
  qed
qed

text \<open>Every place of a token is recorded by the loop.\<close>

lemma execAll_complete:
  "s = a @ tok @ b \<Longrightarrow> isToken tok
     \<Longrightarrow> (k + length a, k + length a + length tok) \<in> set (execAll k s)"
proof (induction "length s" arbitrary: s k a rule: less_induct)
  case less
  have found: "match_at checkboxRegexG (tok @ b) = Some (tok, b)"
    using less.prems(2) match_at_checkboxRegexG by blast
  then have "search checkboxRegexG s \<noteq> None"
    using less.prems(1) by (auto simp: search_None_iff)
  then obtain i m e where s: "search checkboxRegexG s = Some (i, m, e)" by auto
  from search_SomeD[OF s] obtain p where p: "s = p @ m @ e" "length p = i"
      "match_at checkboxRegexG (m @ e) = Some (m, e)"
      "\<forall>p1 p2. p = p1 @ p2 \<and> p2 \<noteq> [] \<longrightarrow> match_at checkboxRegexG (p2 @ m @ e) = None"
    by blast
  then have m: "isToken m" using match_at_checkboxRegexG by blast
  from p(1) less.prems(1) have eq: "p @ (m @ e) = a @ (tok @ b)" by simp
  then consider u where "p = a @ u" "u @ m @ e = tok @ b"
    | u where "u \<noteq> []" "p @ u = a" "m @ e = u @ tok @ b"
    by (rule append_eq_cases)
  then show ?case
  proof cases
    case 1
    have "u = []"
    proof (rule ccontr)
      assume "u \<noteq> []"
      with 1(1) p(4) have "match_at checkboxRegexG (u @ m @ e) = None" by blast
      with 1(2) found show False by simp
    qed
    with 1 have "p = a" "m @ e = tok @ b" by simp_all
    with m less.prems(2) have "m = tok" using isToken_unique by blast
    with \<open>p = a\<close> p(2) show ?thesis by (simp add: execAll_Some[OF s])
  next
    case 2
    note outer = 2
    from outer(3)[symmetric] consider v where "u = m @ v" "v @ tok @ b = e"
      | v where "v \<noteq> []" "u @ v = m" "tok @ b = v @ e"
      by (rule append_eq_cases)
    then show ?thesis
    proof cases
      case 2
      from less.prems(2) obtain r where "tok = cu CHR ''-'' # r" using isToken_dash by blast
      with 2(1,3) have "cu CHR ''-'' \<in> set v" by (cases v) auto
      moreover from m obtain r' where r': "m = cu CHR ''-'' # r'" "cu CHR ''-'' \<notin> set r'"
        using isToken_dash by blast
      moreover from outer(1) obtain y ys where "u = y # ys" by (cases u) auto
      with 2(2) r'(1) have "r' = ys @ v" by simp
      ultimately show ?thesis by simp
    next
      case 1
      have "length e < length s" using s by (rule search_checkboxRegexG_shorter)
      from less.hyps[OF this 1(2)[symmetric] less.prems(2), of "k + i + length m"]
      have "(k + i + length m + length v, k + i + length m + length v + length tok)
          \<in> set (execAll (k + i + length m) e)" .
      moreover have "length a = i + length m + length v"
        using outer(2) 1(1) p(2) by auto
      ultimately show ?thesis by (simp add: execAll_Some[OF s] add.assoc)
    qed
  qed
qed

lemma execAll_iff:
  "(f, t) \<in> set (execAll k s)
     \<longleftrightarrow> (\<exists>a tok b. s = a @ tok @ b \<and> isToken tok \<and> f = k + length a \<and> t = f + length tok)"
  using execAll_sound execAll_complete by blast

lemma scanLines_iff:
  "(l, f, t) \<in> set (scanLines cot n ls)
     \<longleftrightarrow> n \<le> l \<and> l - n < length ls \<and> (cot \<or> isMDCheckboxInTable (ls ! (l - n)))
         \<and> (f, t) \<in> set (execAll 0 (ls ! (l - n)))"
proof (induction ls arbitrary: n)
  case Nil
  show ?case by simp
next
  case (Cons row rows)
  have rest: "(l, f, t) \<in> set (scanLines cot (Suc n) rows)
     \<longleftrightarrow> n < l \<and> l - n < length (row # rows) \<and> (cot \<or> isMDCheckboxInTable ((row # rows) ! (l - n)))
         \<and> (f, t) \<in> set (execAll 0 ((row # rows) ! (l - n)))"
  proof (cases "n < l")
    case True
    then have d: "l - n = Suc (l - Suc n)" by simp
    show ?thesis unfolding Cons.IH using True by (simp add: d)
  next
    case False
    then show ?thesis unfolding Cons.IH by simp
  qed
  have here: "(l, f, t) \<in> set (map (\<lambda>(f, t). (n, f, t)) (execAll 0 row))
     \<longleftrightarrow> l = n \<and> (f, t) \<in> set (execAll 0 row)"
    by auto
  show ?case
  proof (cases "l = n")
    case True
    then show ?thesis using rest here by auto
  next
    case False
    then show ?thesis using rest here by (auto simp: less_le)
  qed
qed

subsection \<open>A second pass\<close>





subsection \<open>The two phases of the conversion\<close>

lemma replaceRanges_weave:
  "length xs = length rs \<Longrightarrow> replaceRanges pos rs xs s = weave (gaps pos rs s) xs"
proof (induction rs arbitrary: pos xs s)
  case Nil
  then show ?case by simp
next
  case (Cons r rs)
  obtain f t where r: "r = (f, t)" by (cases r)
  from Cons.prems obtain y ys where xs: "xs = y # ys" "length ys = length rs"
    by (cases xs) auto
  show ?case using Cons.IH[OF xs(2)] by (simp add: r xs(1))
qed

lemma length_gaps: "length (gaps pos rs s) = Suc (length rs)"
  by (induction rs arbitrary: pos s) auto

lemma gaps_sublist: "g \<in> set (gaps pos rs s) \<Longrightarrow> sublist g s"
proof (induction rs arbitrary: pos s)
  case Nil
  then show ?case by simp
next
  case (Cons r rs)
  obtain f t where r: "r = (f, t)" by (cases r)
  from Cons.prems r consider "g = take (f - pos) s" | "g \<in> set (gaps t rs (drop (t - pos) s))"
    by auto
  then show ?case
  proof cases
    case 1
    then show ?thesis by simp
  next
    case 2
    then have "sublist g (drop (t - pos) s)" by (rule Cons.IH)
    then show ?thesis using sublist_drop sublist_order.order.trans by blast
  qed
qed

lemma generateIds_returns:
  assumes "\<forall>j. idChars (rnd j)" and "\<forall>j. \<exists>k\<ge>j. \<not> sublist (rnd k) page"
  shows "\<exists>ids n'. generateIds rnd page N n = Some (ids, n') \<and> length ids = N
           \<and> (\<forall>i\<in>set ids. idChars i)"
proof (induction N arbitrary: n)
  case 0
  show ?case by simp
next
  case (Suc N)
  from assms(2) obtain k0 where k0: "Suc n \<le> k0" "\<not> sublist (rnd k0) page" by blast
  define k where "k = k0 - n"
  have "k \<noteq> 0" "Suc n + k - 1 = k0" using k0(1) by (simp_all add: k_def)
  then have "\<not> sublist (if k = 0 then slice_from (rnd n) (- 6) else rnd (Suc n + k - 1)) page"
    using k0(2) by simp
  moreover have "idChars (slice_from (rnd n) (- 6))" using assms(1) by (simp add: idChars_slice_from)
  ultimately obtain i n1 where i: "regenerate rnd page (slice_from (rnd n) (- 6)) (Suc n) = Some (i, n1)"
      "idChars i"
    using regenerate_returns[OF assms(1)] by blast
  from Suc.IH[of n1] obtain ids n2 where ids: "generateIds rnd page N n1 = Some (ids, n2)"
      "length ids = N" "\<forall>i\<in>set ids. idChars i" by blast
  have "generateIds rnd page (Suc N) n = Some (i # ids, n2)"
    using i(1) ids(1) by (simp add: generateUniqueCheckboxId_def)
  with i(2) ids(2,3) show ?case by simp
qed

lemma placeholder_eq: "placeholder = placeholderStem @ js ''!!''"
  by (simp add: placeholder_def placeholderStem_def js_def)

lemma placeholder_shape:
  "placeholder = 33 # 33 # js ''PLACEHOLDER_TO_BE_REPLACED_WITH_CHECKBOX'' @ [33, 33]"
  "33 \<notin> set (js ''PLACEHOLDER_TO_BE_REPLACED_WITH_CHECKBOX'')"
  "length (js ''PLACEHOLDER_TO_BE_REPLACED_WITH_CHECKBOX'') = 40"
  by (simp_all add: placeholder_def js_def cu_def)

lemma placeholder_border:
  assumes "0 < m" and "m < 42" and "prefix (drop m placeholder) (placeholder @ rest)"
  shows False
proof -
  define M where "M = js ''PLACEHOLDER_TO_BE_REPLACED_WITH_CHECKBOX''"
  have P: "placeholder = 33 # 33 # M @ [33, 33]" and M: "33 \<notin> set M" "length M = 40"
    unfolding M_def by (rule placeholder_shape)+
  from assms(3) obtain zs where zs: "placeholder @ rest = drop m placeholder @ zs"
    by (auto simp: prefix_def)
  have len: "length (drop m placeholder) \<ge> 3" using assms(2) by (simp add: P M(2))
  have n0: "(drop m placeholder @ zs) ! 0 = placeholder ! m"
    using len assms(2) by (simp add: nth_append P M(2))
  have n1: "(drop m placeholder @ zs) ! 1 = placeholder ! (m + 1)"
    using len assms(2) by (simp add: nth_append P M(2))
  have "(placeholder @ rest) ! 0 = 33" "(placeholder @ rest) ! 1 = 33" by (simp_all add: P)
  with zs n0 n1 have b: "placeholder ! m = 33" "placeholder ! (m + 1) = 33" by simp_all
  show False
  proof (cases "m = 1")
    case True
    with b(2) have "M ! 0 = 33" using M(2) by (simp add: P nth_append)
    moreover have "M ! 0 \<in> set M" using M(2) by (intro nth_mem) simp
    ultimately show False using M(1) by simp
  next
    case False
    with assms(1) obtain j where j: "m = Suc (Suc j)" by (cases m; cases "m - 1") auto
    with assms(2) M(2) have "j < length M" by simp
    with b(1) j have "M ! j = 33" by (simp add: P nth_append)
    moreover have "M ! j \<in> set M" using \<open>j < length M\<close> by (rule nth_mem)
    ultimately show False using M(1) by simp
  qed
qed

lemma no_early_placeholder:
  assumes "\<not> sublist placeholderStem (p1 @ p2)" and "p2 \<noteq> []"
  shows "\<not> prefix placeholder (p2 @ placeholder @ rest)"
proof
  assume pre: "prefix placeholder (p2 @ placeholder @ rest)"
  have lenQ: "length placeholderStem = 42" by (simp add: placeholderStem_def js_def)
  have lenP: "length placeholder = 44" by (simp add: placeholder_def js_def)
  show False
  proof (cases "42 \<le> length p2")
    case True
    have "prefix placeholderStem (p2 @ placeholder @ rest)"
      using pre by (auto simp: placeholder_eq prefix_def)
    then have "prefix placeholderStem p2
        \<or> (\<exists>us. placeholderStem = p2 @ us \<and> prefix us (placeholder @ rest))"
      by (simp add: prefix_append)
    then have "prefix placeholderStem p2"
    proof
      assume "\<exists>us. placeholderStem = p2 @ us \<and> prefix us (placeholder @ rest)"
      then obtain us where us: "placeholderStem = p2 @ us" by blast
      have "length placeholderStem = length p2 + length us" by (simp add: us)
      with True lenQ have "length us = 0" by arith
      then have "us = []" by simp
      with us show ?thesis by simp
    qed
    then have "sublist placeholderStem (p1 @ p2)"
      by (meson prefix_imp_sublist sublist_append)
    with assms(1) show False by simp
  next
    case False
    from pre have "prefix placeholder p2
        \<or> (\<exists>us. placeholder = p2 @ us \<and> prefix us (placeholder @ rest))"
      by (simp add: prefix_append)
    moreover have "\<not> prefix placeholder p2" using False lenP by (auto dest: prefix_length_le)
    ultimately obtain us where us: "placeholder = p2 @ us" "prefix us (placeholder @ rest)" by blast
    have "us = drop (length p2) placeholder" by (simp add: us(1))
    with us(2) have "prefix (drop (length p2) placeholder) (placeholder @ rest)" by simp
    moreover have "0 < length p2" using assms(2) by simp
    moreover have "length p2 < 42" using False by simp
    ultimately show False using placeholder_border by blast
  qed
qed

lemma stem_chars:
  "cu CHR ''!'' \<in> set placeholderStem" "cu CHR ''<'' \<notin> set placeholderStem"
  "cu CHR ''>'' \<notin> set placeholderStem" "hd placeholderStem = cu CHR ''!''" "placeholderStem \<noteq> []"
  by (simp_all add: placeholderStem_def js_def cu_def)

lemma idChars_not: "idChars i \<Longrightarrow> c \<in> set i \<Longrightarrow> hexDigit c \<or> c = cu CHR ''-''"
  by (auto simp: idChars_def list_all_iff)

lemma control_chars:
  assumes "idChars i"
  shows "cu CHR ''!'' \<notin> set (control False i)" "cu CHR ''$'' \<notin> set (control False i)"
    "hd (control False i) = cu CHR ''<''" "last (control False i) = cu CHR ''>''"
    "control False i \<noteq> []"
proof -
  have "\<not> (hexDigit (cu CHR ''!'') \<or> cu CHR ''!'' = cu CHR ''-'')"
      "\<not> (hexDigit (cu CHR ''$'') \<or> cu CHR ''$'' = cu CHR ''-'')"
    by (simp_all add: hexDigit_def cu_def)
  then have "cu CHR ''!'' \<notin> set i" "cu CHR ''$'' \<notin> set i"
    using idChars_not[OF assms] by blast+
  then show "cu CHR ''!'' \<notin> set (control False i)" "cu CHR ''$'' \<notin> set (control False i)"
    by (simp_all add: control_def js_def cu_def)
  show "hd (control False i) = cu CHR ''<''" "last (control False i) = cu CHR ''>''"
    "control False i \<noteq> []"
    by (simp_all add: control_def js_def)
qed

lemma okPrefix_Nil: "okPrefix []"
  by (simp add: okPrefix_def stem_chars)

lemma okPrefix_append:
  assumes "okPrefix d" and "\<not> sublist placeholderStem g"
  shows "\<not> sublist placeholderStem (d @ g)"
proof
  assume "sublist placeholderStem (d @ g)"
  then consider "sublist placeholderStem d" | "sublist placeholderStem g"
    | q1 q2 where "placeholderStem = q1 @ q2" "suffix q1 d" "prefix q2 g"
    unfolding sublist_append by blast
  then show False
  proof cases
    case 1
    with assms(1) show False by (simp add: okPrefix_def)
  next
    case 2
    with assms(2) show False by simp
  next
    case 3
    show False
    proof (cases "q1 = []")
      case True
      with 3 have "sublist placeholderStem g" by auto
      with assms(2) show False by simp
    next
      case False
      with 3(2) have "d \<noteq> []" "last d = last q1" by (auto simp: suffix_def)
      moreover have "last q1 \<in> set placeholderStem" using False by (simp add: 3(1))
      ultimately show False using assms(1) by (simp add: okPrefix_def)
    qed
  qed
qed

lemma okPrefix_control:
  assumes "\<not> sublist placeholderStem x" and "idChars i"
  shows "okPrefix (x @ control False i)"
proof -
  note c = control_chars[OF assms(2)]
  have "\<not> sublist placeholderStem (x @ control False i)"
  proof
    assume "sublist placeholderStem (x @ control False i)"
    then consider "sublist placeholderStem x" | "sublist placeholderStem (control False i)"
      | q1 q2 where "placeholderStem = q1 @ q2" "suffix q1 x" "prefix q2 (control False i)"
      unfolding sublist_append by blast
    then show False
    proof cases
      case 1
      with assms(1) show False by simp
    next
      case 2
      then have "set placeholderStem \<subseteq> set (control False i)"
        by (auto simp: sublist_def)
      with stem_chars(1) c(1) show False by blast
    next
      case 3
      show False
      proof (cases "q2 = []")
        case True
        with 3 have "sublist placeholderStem x" by auto
        with assms(1) show False by simp
      next
        case False
        with 3(3) c(5) have "hd q2 = hd (control False i)" by (auto simp: prefix_def)
        moreover have "hd q2 \<in> set placeholderStem" using False by (simp add: 3(1))
        ultimately show False using c(3) stem_chars(2) by simp
      qed
    qed
  qed
  moreover have "last (x @ control False i) \<notin> set placeholderStem"
    using c(4,5) stem_chars(3) by simp
  ultimately show ?thesis by (simp add: okPrefix_def c(5))
qed

lemma replaceFirst_placeholder:
  assumes "\<not> sublist placeholderStem x" and "idChars i"
  shows "replaceFirst (lits placeholder) (control False i) (x @ placeholder @ rest)
           = Some (x @ control False i @ rest)"
proof -
  have m: "match_at (lits placeholder) (placeholder @ rest) = Some (placeholder, rest)"
    by (simp add: match_at_lits)
  have "\<forall>p1 p2. x = p1 @ p2 \<and> p2 \<noteq> []
          \<longrightarrow> match_at (lits placeholder) (p2 @ placeholder @ rest) = None"
    using no_early_placeholder assms(1) by (auto simp: match_at_lits)
  from search_first[OF m this]
  have "search (lits placeholder) (x @ placeholder @ rest) = Some (length x, placeholder, rest)" .
  then show ?thesis using control_chars(2)[OF assms(2)] by (simp add: replaceFirst_def)
qed

lemma substituteIds_weave:
  "length gs = Suc (length ids) \<Longrightarrow> \<forall>g\<in>set gs. \<not> sublist placeholderStem g
     \<Longrightarrow> \<forall>i\<in>set ids. idChars i \<Longrightarrow> okPrefix d
     \<Longrightarrow> substituteIds (d @ weave gs (replicate (length ids) placeholder)) ids
           = Some (d @ weave gs (map (control False) ids))"
proof (induction ids arbitrary: d gs)
  case Nil
  then obtain g where "gs = [g]" by (cases gs) auto
  then show ?case by simp
next
  case (Cons i ids)
  from Cons.prems(1) obtain g gs' where gs: "gs = g # gs'" "length gs' = Suc (length ids)"
    by (cases gs) auto
  have dg: "\<not> sublist placeholderStem (d @ g)"
    using okPrefix_append[OF Cons.prems(4)] Cons.prems(2) gs(1) by simp
  have i: "idChars i" using Cons.prems(3) by simp
  have step: "replaceFirst (lits placeholder) (control False i)
      ((d @ g) @ placeholder @ weave gs' (replicate (length ids) placeholder))
      = Some ((d @ g) @ control False i @ weave gs' (replicate (length ids) placeholder))"
    by (rule replaceFirst_placeholder[OF dg i])
  have ok: "okPrefix ((d @ g) @ control False i)" by (rule okPrefix_control[OF dg i])
  have "substituteIds (((d @ g) @ control False i) @ weave gs' (replicate (length ids) placeholder)) ids
      = Some (((d @ g) @ control False i) @ weave gs' (map (control False) ids))"
    using Cons.IH[OF gs(2) _ _ ok] Cons.prems(2,3) gs(1) by simp
  with step show ?case by (simp add: gs(1))
qed

lemma ascending_le: "ascending pos rs n \<Longrightarrow> pos \<le> n"
proof (induction rs arbitrary: pos)
  case Nil
  then show ?case by simp
next
  case (Cons r rs)
  obtain f t where "r = (f, t)" by (cases r)
  with Cons.prems have "pos \<le> f" "f \<le> t" "ascending t rs n" by simp_all
  with Cons.IH[of t] show ?case by simp
qed

lemma ascending_start: "ascending q rs n \<Longrightarrow> p \<le> q \<Longrightarrow> ascending p rs n"
  by (cases rs) (auto split: prod.splits)

lemma ascending_append:
  "ascending p xs m \<Longrightarrow> m \<le> q \<Longrightarrow> ascending q ys n \<Longrightarrow> ascending p (xs @ ys) n"
proof (induction xs arbitrary: p)
  case Nil
  then show ?case using ascending_start[of q ys n p] by simp
next
  case (Cons x xs)
  obtain f t where "x = (f, t)" by (cases x)
  with Cons show ?case by simp
qed

lemma ascending_mem:
  "ascending p rs n \<Longrightarrow> (f, t) \<in> set rs \<Longrightarrow> p \<le> f \<and> f \<le> t \<and> t \<le> n"
proof (induction rs arbitrary: p)
  case Nil
  then show ?case by simp
next
  case (Cons x xs)
  obtain f' t' where x: "x = (f', t')" by (cases x)
  from Cons.prems x have a: "p \<le> f'" "f' \<le> t'" "ascending t' xs n" by simp_all
  from Cons.prems(2) x consider "(f, t) = (f', t')" | "(f, t) \<in> set xs" by auto
  then show ?case
  proof cases
    case 1
    with a ascending_le[OF a(3)] show ?thesis by simp
  next
    case 2
    from Cons.IH[OF a(3) 2] a show ?thesis by simp
  qed
qed

text \<open>Ranges in ascending order that are replaced by their own texts leave the text as it
  is.\<close>

lemma replaceRanges_own_text:
  "ascending pos rs (length page)
     \<Longrightarrow> replaceRanges pos rs (map (\<lambda>(f, t). take (t - f) (drop f page)) rs) (drop pos page)
           = drop pos page"
proof (induction rs arbitrary: pos)
  case Nil
  show ?case by simp
next
  case (Cons r rs)
  obtain f t where r: "r = (f, t)" by (cases r)
  with Cons.prems have a: "pos \<le> f" "f \<le> t" "ascending t rs (length page)" by simp_all
  have d: "drop (t - pos) (drop pos page) = drop t page" using a by simp
  have "take (f - pos) (drop pos page) @ take (t - f) (drop f page) @ drop t page = drop pos page"
  proof -
    have "take (t - f) (drop f page) @ drop t page = drop f page"
      using a(2) by (metis append_take_drop_id drop_drop le_add_diff_inverse2)
    moreover have "take (f - pos) (drop pos page) @ drop f page = drop pos page"
      using a(1) by (metis append_take_drop_id drop_drop le_add_diff_inverse2)
    ultimately show ?thesis by simp
  qed
  with Cons.IH[OF a(3)] show ?case by (simp only: r list.map prod.case replaceRanges.simps d)
qed

lemma execAll_ascending:
  "ascending (off + k) (map (\<lambda>(f, t). (off + f, off + t)) (execAll k s)) (off + k + length s)"
proof (induction "length s" arbitrary: s k rule: less_induct)
  case less
  show ?case
  proof (cases "search checkboxRegexG s")
    case None
    then show ?thesis by (simp add: execAll_None)
  next
    case (Some ime)
    obtain i m e where "ime = (i, m, e)" by (cases ime)
    with Some have s: "search checkboxRegexG s = Some (i, m, e)" by simp
    from search_SomeD[OF s] obtain p where p: "s = p @ m @ e" "length p = i" by blast
    have "length e < length s" using s by (rule search_checkboxRegexG_shorter)
    from less[OF this, of "k + i + length m"]
    have "ascending (off + (k + i + length m))
        (map (\<lambda>(f, t). (off + f, off + t)) (execAll (k + i + length m) e)) (off + k + length s)"
      using p by (simp add: add.assoc)
    then show ?thesis by (simp add: execAll_Some[OF s] add.assoc)
  qed
qed

lemma length_join_Cons:
  "rows \<noteq> [] \<Longrightarrow> length (join_lines (row # rows)) = length row + 1 + length (join_lines rows)"
  by (cases rows) simp_all

lemma scanLines_lines: "(l, f, t) \<in> set (scanLines cot n ls) \<Longrightarrow> n \<le> l"
  by (simp add: scanLines_iff)

lemma scanLines_ascending:
  "ascending off
     (map (\<lambda>(l, f, t). (off + offsetIn ls (l - n) f, off + offsetIn ls (l - n) t))
        (scanLines cot n ls))
     (off + length (join_lines ls))"
proof (induction ls arbitrary: n off)
  case Nil
  show ?case by simp
next
  case (Cons row rows)
  define here where "here = map (\<lambda>(f, t). (off + f, off + t)) (execAll 0 row)"
  define rest where "rest = map (\<lambda>(l, f, t). (off + offsetIn (row # rows) (l - n) f,
      off + offsetIn (row # rows) (l - n) t)) (scanLines cot (Suc n) rows)"
  have h: "ascending off here (off + length row)"
    unfolding here_def using execAll_ascending[of off 0 row] by simp
  have hmap: "map (\<lambda>(l, f, t). (off + offsetIn (row # rows) (l - n) f,
      off + offsetIn (row # rows) (l - n) t)) (map (\<lambda>(f, t). (n, f, t)) (execAll 0 row)) = here"
  proof -
    have "\<And>f t. (f, t) \<in> set (execAll 0 row) \<Longrightarrow> f \<le> length row \<and> t \<le> length row"
    proof -
      fix f t assume "(f, t) \<in> set (execAll 0 row)"
      then have "(0 + f, 0 + t) \<in> set (map (\<lambda>(f, t). (0 + f, 0 + t)) (execAll 0 row))"
        by force
      from ascending_mem[OF execAll_ascending[of 0 0 row] this]
      show "f \<le> length row \<and> t \<le> length row" by simp
    qed
    then show ?thesis unfolding here_def by (auto simp: min_def)
  qed
  have r: "ascending (off + length row) rest (off + length (join_lines (row # rows)))"
  proof (cases "rows = []")
    case True
    then show ?thesis by (simp add: rest_def)
  next
    case False
    have "rest = map (\<lambda>(l, f, t). (off + length row + 1 + offsetIn rows (l - Suc n) f,
        off + length row + 1 + offsetIn rows (l - Suc n) t)) (scanLines cot (Suc n) rows)"
      unfolding rest_def
    proof (rule map_cong[OF refl])
      fix x assume x: "x \<in> set (scanLines cot (Suc n) rows)"
      obtain l f t where lft: "x = (l, f, t)" by (cases x)
      with x have "Suc n \<le> l" using scanLines_lines by blast
      then have "l - n = Suc (l - Suc n)" by simp
      then show "(case x of (l, f, t) \<Rightarrow> (off + offsetIn (row # rows) (l - n) f,
            off + offsetIn (row # rows) (l - n) t))
          = (case x of (l, f, t) \<Rightarrow> (off + length row + 1 + offsetIn rows (l - Suc n) f,
            off + length row + 1 + offsetIn rows (l - Suc n) t))"
        using False by (simp add: lft)
    qed
    with Cons.IH[of "off + length row + 1" "Suc n"]
    have "ascending (off + length row + 1) rest
        (off + length row + 1 + length (join_lines rows))" by simp
    then have "ascending (off + length row) rest
        (off + length row + 1 + length (join_lines rows))"
      by (rule ascending_start) simp
    then show ?thesis using False by (simp add: length_join_Cons add.assoc)
  qed
  have skip: "ascending off rest (off + length (join_lines (row # rows)))"
    using r by (rule ascending_start) simp
  show ?case
  proof (cases "\<not> cot \<and> \<not> isMDCheckboxInTable row")
    case True
    have "scanLines cot n (row # rows) = scanLines cot (Suc n) rows"
      by (subst scanLines.simps) (rule if_P[OF True])
    then show ?thesis using skip unfolding rest_def by simp
  next
    case False
    have "scanLines cot n (row # rows)
        = map (\<lambda>(f, t). (n, f, t)) (execAll 0 row) @ scanLines cot (Suc n) rows"
      by (subst scanLines.simps) (rule if_not_P[OF False])
    moreover have "ascending off (here @ rest) (off + length (join_lines (row # rows)))"
      using ascending_append[OF h le_refl r] .
    ultimately show ?thesis unfolding rest_def hmap[symmetric] by (simp only: map_append)
  qed
qed

lemma split_lines_ne: "split_lines s \<noteq> []"
  by (induction s) (auto split: list.splits)

lemma join_split_lines: "join_lines (split_lines s) = s"
proof (induction s)
  case Nil
  show ?case by simp
next
  case (Cons x xs)
  obtain l ls where sp: "split_lines xs = l # ls"
    using split_lines_ne[of xs] by (cases "split_lines xs") auto
  show ?case
  proof (cases "x = 10")
    case True
    with Cons sp show ?thesis by simp
  next
    case False
    with Cons sp show ?thesis by (cases ls) auto
  qed
qed

text \<open>The recorded spans are in ascending order, and they are ranges of the document.\<close>

lemma getCheckboxesToConvert_ascending:
  "ascending 0 (map (spanOffsets page) (getCheckboxesToConvert page cot)) (length page)"
proof -
  have "map (spanOffsets page) (getCheckboxesToConvert page cot)
      = map (\<lambda>(l, f, t). (0 + offsetIn (split_lines page) (l - 0) f,
          0 + offsetIn (split_lines page) (l - 0) t)) (scanLines cot 0 (split_lines page))"
    by (simp add: getCheckboxesToConvert_def spanOffsets_def fun_eq_iff)
  with scanLines_ascending[of 0 "split_lines page" 0 cot] show ?thesis
    by (simp only: join_split_lines add_0)
qed

lemma getCheckboxesToConvert_own_text:
  "replaceRanges 0 (map (spanOffsets page) (getCheckboxesToConvert page cot))
     (map (\<lambda>(f, t). take (t - f) (drop f page))
        (map (spanOffsets page) (getCheckboxesToConvert page cot))) page = page"
  using replaceRanges_own_text[OF getCheckboxesToConvert_ascending, of page cot] by simp

text \<open>
  C10, as the source has it. The random source returns UUIDs and returns, from every
  point on, some UUID that is not in the document, so that every identifier is found.
  For a document without the placeholder stem and with at least one recorded span, the
  conversion returns, and the text that it leaves is the text of the document with the
  control of the \<open>k\<close>-th identifier of the batch in the place of the \<open>k\<close>-th recorded
  span, and with every other code unit as it was; the recorded spans are ranges of the
  document in ascending order.
\<close>

theorem convertAllCheckboxes_frame:
  assumes "\<forall>k. isUUID (rnd k)"
    and "\<forall>j. \<exists>k\<ge>j. \<not> sublist (rnd k) (content ed)"
    and "\<not> sublist placeholderStem (content ed)"
    and "getCheckboxesToConvert (content ed) cot \<noteq> []"
  shows "\<exists>ids n'.
           generateIds rnd (content ed) (length (getCheckboxesToConvert (content ed) cot)) n
             = Some (ids, n')
           \<and> map_option (\<lambda>(err, ed'). (err, content ed')) (convertAllCheckboxes rnd n cot ed)
             = Some (None,
                 replaceRanges 0
                   (map (spanOffsets (content ed)) (getCheckboxesToConvert (content ed) cot))
                   (map (control False) ids) (content ed))
           \<and> ascending 0
                 (map (spanOffsets (content ed)) (getCheckboxesToConvert (content ed) cot))
                 (length (content ed))"
proof -
  define page where "page = content ed"
  define spans where "spans = getCheckboxesToConvert page cot"
  define rs where "rs = map (spanOffsets page) spans"
  define gs where "gs = gaps 0 rs page"
  from assms(1) have chars: "\<forall>j. idChars (rnd j)" using isUUID_idChars by blast
  from generateIds_returns[OF chars assms(2)[folded page_def], of "length spans" n]
  obtain ids n' where ids: "generateIds rnd page (length spans) n = Some (ids, n')"
      "length ids = length spans" "\<forall>i\<in>set ids. idChars i" by blast
  have lens: "length rs = length spans" by (simp add: rs_def)
  have gl: "length gs = Suc (length ids)" by (simp add: gs_def length_gaps lens ids(2))
  have gq: "\<forall>g\<in>set gs. \<not> sublist placeholderStem g"
  proof
    fix g assume "g \<in> set gs"
    then have "sublist g page" unfolding gs_def by (rule gaps_sublist)
    then show "\<not> sublist placeholderStem g"
      using assms(3)[folded page_def] sublist_order.order.trans by blast
  qed
  have ph: "replaceRanges 0 rs (replicate (length spans) placeholder) page
      = weave gs (replicate (length ids) placeholder)"
    unfolding gs_def ids(2) by (rule replaceRanges_weave) (simp add: lens)
  have fin: "replaceRanges 0 rs (map (control False) ids) page = weave gs (map (control False) ids)"
    unfolding gs_def by (rule replaceRanges_weave) (simp add: lens ids(2))
  have sub: "substituteIds (weave gs (replicate (length ids) placeholder)) ids
      = Some (weave gs (map (control False) ids))"
    using substituteIds_weave[OF gl gq ids(3) okPrefix_Nil] by simp
  have ne: "spans \<noteq> []" using assms(4) by (simp add: spans_def page_def)
  have "map_option (\<lambda>(err, ed'). (err, content ed')) (convertAllCheckboxes rnd n cot ed)
      = Some (None, replaceRanges 0 rs (map (control False) ids) page)"
    using ids(1) ne ph sub fin
    by (simp add: convertAllCheckboxes_def convertCheckboxes_def setSelections_def
        replaceSelection_def page_def[symmetric] spans_def[symmetric] rs_def[symmetric])
  moreover have "ascending 0 rs (length page)"
    unfolding rs_def spans_def by (rule getCheckboxesToConvert_ascending)
  ultimately show ?thesis
    using ids(1) unfolding page_def spans_def rs_def by blast
qed

theorem convertAllCheckboxes_frame_witness:
  "map_option (\<lambda>(err, ed'). (err, content ed'))
     (convertAllCheckboxes (\<lambda>k. js ''0f8fad5b-d9cb-469f-a165-70867728950e'') 0 False
        \<lparr>content = js ''| - [ ] | -[] |'', selections = [], rejectsEmptySelection = True\<rparr>)
   = Some (None, js ''| <input type=\"checkbox\" unchecked id=\"28950e\"> | <input type=\"checkbox\" unchecked id=\"28950e\"> |'')"
proof -
  define rnd :: random where "rnd = (\<lambda>k. js ''0f8fad5b-d9cb-469f-a165-70867728950e'')"
  define page where "page = js ''| - [ ] | -[] |''"
  define ed where "ed = \<lparr>content = page, selections = [], rejectsEmptySelection = True\<rparr>"
  have c: "content ed = page" by (simp add: ed_def)
  have 1: "\<forall>k. isUUID (rnd k)" by (simp add: rnd_def isUUID_def hexDigit_def js_def cu_def)
  have "\<not> sublist (js ''0f8fad5b-d9cb-469f-a165-70867728950e'') page"
    by (simp add: page_def js_def cu_def sublist_code prefix_code)
  then have 2: "\<forall>j. \<exists>k\<ge>j. \<not> sublist (rnd k) (content ed)"
    unfolding c rnd_def by blast
  have 3: "\<not> sublist placeholderStem (content ed)"
    unfolding c by (simp add: page_def placeholderStem_def js_def cu_def sublist_code prefix_code)
  have spansP: "getCheckboxesToConvert page False = [(0, 2, 7), (0, 10, 13)]"
    by (simp add: page_def model_defs eval_defs)
  then have spans: "getCheckboxesToConvert (content ed) False = [(0, 2, 7), (0, 10, 13)]"
    unfolding c .
  then have 4: "getCheckboxesToConvert (content ed) False \<noteq> []" by simp
  have gen: "generateIds rnd (content ed) 2 0 = Some ([js ''28950e'', js ''28950e''], 2)"
    unfolding c by (simp add: rnd_def page_def model_defs eval_defs numeral_2_eq_2)
  from convertAllCheckboxes_frame[OF 1 2 3 4, of 0]
  obtain ids n' where ids: "generateIds rnd (content ed)
        (length (getCheckboxesToConvert (content ed) False)) 0 = Some (ids, n')"
    and res: "map_option (\<lambda>(err, ed'). (err, content ed')) (convertAllCheckboxes rnd 0 False ed)
      = Some (None, replaceRanges 0
          (map (spanOffsets (content ed)) (getCheckboxesToConvert (content ed) False))
          (map (control False) ids) (content ed))"
    by blast
  have len: "length (getCheckboxesToConvert (content ed) False) = 2" by (simp add: spans)
  from ids[unfolded len] gen have "ids = [js ''28950e'', js ''28950e'']" by simp
  with res have "map_option (\<lambda>(err, ed'). (err, content ed')) (convertAllCheckboxes rnd 0 False ed)
      = Some (None, replaceRanges 0 (map (spanOffsets page) [(0, 2, 7), (0, 10, 13)])
          (map (control False) [js ''28950e'', js ''28950e'']) page)"
    by (simp add: spansP c)
  also have "replaceRanges 0 (map (spanOffsets page) [(0, 2, 7), (0, 10, 13)])
          (map (control False) [js ''28950e'', js ''28950e'']) page
      = js ''| <input type=\"checkbox\" unchecked id=\"28950e\"> | <input type=\"checkbox\" unchecked id=\"28950e\"> |''"
    by (simp add: page_def spanOffsets_def eval_defs)
  finally show ?thesis by (simp add: rnd_def ed_def page_def)
qed

text \<open>
  C10, as the claim states it, fails. The document
  \<^verbatim>\<open>| !!PLACEHOLDER_TO_BE_REPLACED_WITH_CHECKBOX- [ ] |\<close> does not have the placeholder,
  and its one span, columns 44 to 49, is recorded. After the first phase the text before
  the span and the first two code units of the placeholder that is put there make up a
  placeholder, which is the first in the document: the second phase replaces it, and
  with it 42 code units outside the recorded span, and leaves the rest of the placeholder
  that was put in. The last equation is the text that the claim asks for.
\<close>

theorem convertAllCheckboxes_placeholder_overlap:
  "\<not> sublist placeholder (js ''| !!PLACEHOLDER_TO_BE_REPLACED_WITH_CHECKBOX- [ ] |'')
   \<and> getCheckboxesToConvert (js ''| !!PLACEHOLDER_TO_BE_REPLACED_WITH_CHECKBOX- [ ] |'') False
       = [(0, 44, 49)]
   \<and> map_option (\<lambda>(err, ed'). (err, content ed'))
       (convertAllCheckboxes (\<lambda>k. js ''0f8fad5b-d9cb-469f-a165-70867728950e'') 0 False
          \<lparr>content = js ''| !!PLACEHOLDER_TO_BE_REPLACED_WITH_CHECKBOX- [ ] |'',
           selections = [], rejectsEmptySelection = True\<rparr>)
       = Some (None, js ''| <input type=\"checkbox\" unchecked id=\"28950e\">PLACEHOLDER_TO_BE_REPLACED_WITH_CHECKBOX!! |'')
   \<and> replaceRanges 0
       (map (spanOffsets (js ''| !!PLACEHOLDER_TO_BE_REPLACED_WITH_CHECKBOX- [ ] |'')) [(0, 44, 49)])
       [control False (js ''28950e'')] (js ''| !!PLACEHOLDER_TO_BE_REPLACED_WITH_CHECKBOX- [ ] |'')
       = js ''| !!PLACEHOLDER_TO_BE_REPLACED_WITH_CHECKBOX<input type=\"checkbox\" unchecked id=\"28950e\"> |''"
proof (intro conjI)
  show "replaceRanges 0
       (map (spanOffsets (js ''| !!PLACEHOLDER_TO_BE_REPLACED_WITH_CHECKBOX- [ ] |'')) [(0, 44, 49)])
       [control False (js ''28950e'')] (js ''| !!PLACEHOLDER_TO_BE_REPLACED_WITH_CHECKBOX- [ ] |'')
       = js ''| !!PLACEHOLDER_TO_BE_REPLACED_WITH_CHECKBOX<input type=\"checkbox\" unchecked id=\"28950e\"> |''"
    by (simp add: spanOffsets_def eval_defs)
  show "\<not> sublist placeholder (js ''| !!PLACEHOLDER_TO_BE_REPLACED_WITH_CHECKBOX- [ ] |'')"
    by (simp add: placeholder_def js_def cu_def sublist_code prefix_code)
  show "getCheckboxesToConvert (js ''| !!PLACEHOLDER_TO_BE_REPLACED_WITH_CHECKBOX- [ ] |'') False
       = [(0, 44, 49)]"
    by (simp add: model_defs eval_defs)
  show "map_option (\<lambda>(err, ed'). (err, content ed'))
       (convertAllCheckboxes (\<lambda>k. js ''0f8fad5b-d9cb-469f-a165-70867728950e'') 0 False
          \<lparr>content = js ''| !!PLACEHOLDER_TO_BE_REPLACED_WITH_CHECKBOX- [ ] |'',
           selections = [], rejectsEmptySelection = True\<rparr>)
       = Some (None, js ''| <input type=\"checkbox\" unchecked id=\"28950e\">PLACEHOLDER_TO_BE_REPLACED_WITH_CHECKBOX!! |'')"
    by (simp add: model_defs eval_defs)
qed

subsection \<open>The policy of the flag\<close>




























end
